theory Spec2Isabelle
  imports Complex_Main
begin

section \<open>Data model of \<open>sparse_matrix.cc\<close>\<close>

text \<open>
  The class template \<open>SparseMatrix<T>\<close> stores a square matrix in compressed
  sparse row form. Its fields become a record. Values of \<open>unsigned int\<close> (row offsets,
  column indices, the row count, the insertion counter) are natural numbers below
  \<open>2 ^ 32\<close>; where the source computes in \<open>unsigned int\<close> and the result can leave
  that range (\<open>nrow + 1\<close>, \<open>++count\<close>, \<open>++row_ptr[i+1]\<close>, \<open>nrow - 1\<close>) the
  wrap-around is written out as \<open>mod 2 ^ 32\<close>. An index \<open>i + 1\<close> or a loop counter
  \<open>d + 1\<close> is only computed below a bound that is itself an \<open>unsigned int\<close>, so it
  is exact. Vectors passed by reference are positions in a store (a list of vectors),
  where the source writes one of them and the caller may pass the same object twice.
  The element type \<open>T\<close> (instantiated by the source with
  \<open>int\<close>, \<open>float\<close> and \<open>double\<close>) is a type variable of a commutative ring;
  rounding and overflow of \<open>T\<close> are not modelled. Division in \<open>T\<close> and
  \<open>std::sqrt\<close> differ between the instantiations (truncating for \<open>int\<close>), so the
  kernels that use them take both as parameters \<open>tdiv\<close> and \<open>tsqrt\<close>.
\<close>

datatype State = OPEN | CLOSED

text \<open>What the source writes to \<open>std::cout\<close>: the warning of \<open>close\<close> (with the
  number it prints) and the message of the mutable accessor before it aborts.\<close>

datatype message = RowEmpty nat | NoElement nat nat

text \<open>
  How a call can fail: a failed \<open>assert\<close>, \<open>abort ()\<close> (with the message
  printed before it), an access to a \<open>std::vector\<close> outside its size (undefined
  behaviour in C++, a failure here), and the errors of the dense vector.
\<close>

datatype error =
    AssertFailed
  | Aborted message
  | OutOfBounds
  | InvalidSize
  | IndexOutOfRange
  | LengthMismatch

record 'a SparseMatrix =
  nrow :: nat
  row_ptr :: "nat list"
  col_ind :: "nat list"
  val :: "'a list"
  state :: State

text \<open>Sequencing of calls that can fail: the first failure ends the computation.\<close>

definition andthen :: "error + 'a \<Rightarrow> ('a \<Rightarrow> error + 'b) \<Rightarrow> error + 'b" where
  "andthen m f = (case m of Inl e \<Rightarrow> Inl e | Inr v \<Rightarrow> f v)"

lemma andthen_cong [fundef_cong]:
  "m = m' \<Longrightarrow> (\<And>v. m' = Inr v \<Longrightarrow> f v = f' v) \<Longrightarrow> andthen m f = andthen m' f'"
  by (simp add: andthen_def split: sum.splits)

text \<open>\<open>v[k]\<close> on a \<open>std::vector\<close>.\<close>

definition vector_at :: "'a list \<Rightarrow> nat \<Rightarrow> error + 'a" where
  "vector_at v k = (if k < length v then Inr (v ! k) else Inl OutOfBounds)"

subsection \<open>The dense vector\<close>


text \<open>Modelled from the spec: the read access \<open>x(i)\<close> of \<open>Vector<T>\<close>, bounds-checked,
  failing with \<open>IndexOutOfRange\<close> if \<open>i \<ge> n\<close>.\<close>

definition Vector_get :: "'a list \<Rightarrow> nat \<Rightarrow> error + 'a" where
  "Vector_get x i = (if i < length x then Inr (x ! i) else Inl IndexOutOfRange)"

text \<open>Modelled from the spec: the write access \<open>x(i) = v\<close> of \<open>Vector<T>\<close>,
  bounds-checked, failing with \<open>IndexOutOfRange\<close> if \<open>i \<ge> n\<close>.\<close>

definition Vector_set :: "'a list \<Rightarrow> nat \<Rightarrow> 'a \<Rightarrow> error + 'a list" where
  "Vector_set x i v = (if i < length x then Inr (x[i := v]) else Inl IndexOutOfRange)"



section \<open>Construction\<close>

text \<open>
  The constructor from a CSR triple. It checks its assertions and copies the three
  vectors; it does not initialise \<open>state\<close>, whose indeterminate value is the parameter
  \<open>st\<close>. The loop over \<open>col_ind\<close> asserts every column index to be below \<open>nrow\<close>.
\<close>

definition SparseMatrix_csr ::
  "State \<Rightarrow> nat list \<Rightarrow> nat list \<Rightarrow> 'a list \<Rightarrow> error + 'a SparseMatrix" where
  "SparseMatrix_csr st rp ci vl =
     (if \<not> 2 \<le> length rp then Inl AssertFailed
      else if \<not> 0 < length ci then Inl AssertFailed
      else if length ci \<noteq> length vl then Inl AssertFailed
      else if rp ! (length rp - 1) \<noteq> length vl then Inl AssertFailed
      else if \<not> list_all (\<lambda>c. c < length rp - 1) ci then Inl AssertFailed
      else Inr \<lparr>nrow = length rp - 1, row_ptr = rp, col_ind = ci, val = vl, state = st\<rparr>)"

text \<open>The constructor of an empty pattern of \<open>nrow\<close> rows; the size \<open>nrow + 1\<close> of
  \<open>row_ptr\<close> is computed in \<open>unsigned int\<close>.\<close>

definition SparseMatrix_new :: "nat \<Rightarrow> error + 'a SparseMatrix" where
  "SparseMatrix_new n =
     (if \<not> 0 < n then Inl AssertFailed
      else Inr \<lparr>nrow = n, row_ptr = replicate ((n + 1) mod 2 ^ 32) 0, col_ind = [],
                val = [], state = OPEN\<rparr>)"

text \<open>
  \<open>set (i, j, value)\<close>. The counter \<open>count\<close> is a \<open>static\<close> local of the member
  function: one variable per instantiation of the template, shared by all matrices of
  that element type and alive for the whole process. It is therefore an argument and a
  result of the model, next to the matrix. Both increments are those of
  \<open>unsigned int\<close>.
\<close>

definition set_at ::
  "nat \<Rightarrow> 'a SparseMatrix \<Rightarrow> nat \<Rightarrow> nat \<Rightarrow> 'a \<Rightarrow> error + (nat \<times> 'a SparseMatrix)" where
  "set_at count A i j v =
     (if state A \<noteq> OPEN then Inl AssertFailed
      else if \<not> i < nrow A then Inl AssertFailed
      else if \<not> j < nrow A then Inl AssertFailed
      else
        andthen (vector_at (row_ptr A) (i + 1)) (\<lambda>r.
          let rp = (if r = 0 then (row_ptr A)[i + 1 := count] else row_ptr A);
              count' = (count + 1) mod 2 ^ 32;
              rp' = rp[i + 1 := (rp ! (i + 1) + 1) mod 2 ^ 32]
          in Inr (count', A\<lparr>row_ptr := rp', col_ind := col_ind A @ [j], val := val A @ [v]\<rparr>)))"

text \<open>
  \<open>close ()\<close>: the loop runs \<open>i\<close> from 1 while \<open>i < nrow + 1\<close>, the bound computed
  in \<open>unsigned int\<close>; \<open>out\<close> collects what is printed.
\<close>

function close_loop ::
  "nat \<Rightarrow> nat \<Rightarrow> nat list \<Rightarrow> message list \<Rightarrow> error + (nat list \<times> message list)" where
  "close_loop n i rp out =
     (if i < (n + 1) mod 2 ^ 32 then
        andthen (vector_at rp i) (\<lambda>r.
          if r = 0 then
            andthen (vector_at rp (i - 1)) (\<lambda>p.
              close_loop n (i + 1) (rp[i := p]) (out @ [RowEmpty i]))
          else close_loop n (i + 1) rp out)
      else Inr (rp, out))"
  by pat_completeness auto
termination
  by (relation "measure (\<lambda>(n, i, rp, out). (n + 1) mod 2 ^ 32 - i)") auto

definition close :: "'a SparseMatrix \<Rightarrow> error + ('a SparseMatrix \<times> message list)" where
  "close A =
     andthen (close_loop (nrow A) 1 (row_ptr A) []) (\<lambda>(rp, out).
       Inr (A\<lparr>row_ptr := rp, state := CLOSED\<rparr>, out))"

section \<open>Element access\<close>

text \<open>The constant accessor \<open>operator() (i, j) const\<close>: the loop over \<open>d\<close>, then the
  function.\<close>

function get_loop :: "('a::zero) SparseMatrix \<Rightarrow> nat \<Rightarrow> nat \<Rightarrow> nat \<Rightarrow> error + 'a" where
  "get_loop A j d row_end =
     (if d < row_end then
        andthen (vector_at (col_ind A) d) (\<lambda>c.
          if c = j then vector_at (val A) d else get_loop A j (d + 1) row_end)
      else Inr 0)"
  by pat_completeness auto
termination
  by (relation "measure (\<lambda>(A, j, d, row_end). row_end - d)") auto

definition get :: "('a::zero) SparseMatrix \<Rightarrow> nat \<Rightarrow> nat \<Rightarrow> error + 'a" where
  "get A i j =
     andthen (vector_at (row_ptr A) i) (\<lambda>row_beg.
     andthen (vector_at (row_ptr A) (i + 1)) (\<lambda>row_end.
       get_loop A j row_beg row_end))"

text \<open>
  The mutable accessor \<open>operator() (i, j)\<close> returns a reference to \<open>val[d]\<close>. The
  reference is modelled by the position \<open>d\<close>; reading and writing through it are
  \<open>handle_read\<close> and \<open>handle_write\<close>. When the loop finds no entry the source prints
  its message and calls \<open>abort ()\<close>.
\<close>

function get_mut_loop :: "'a SparseMatrix \<Rightarrow> nat \<Rightarrow> nat \<Rightarrow> nat \<Rightarrow> nat \<Rightarrow> error + nat" where
  "get_mut_loop A i j d row_end =
     (if d < row_end then
        andthen (vector_at (col_ind A) d) (\<lambda>c.
          if c = j then andthen (vector_at (val A) d) (\<lambda>_. Inr d)
          else get_mut_loop A i j (d + 1) row_end)
      else Inl (Aborted (NoElement i j)))"
  by pat_completeness auto
termination
  by (relation "measure (\<lambda>(A, i, j, d, row_end). row_end - d)") auto

definition get_mut :: "'a SparseMatrix \<Rightarrow> nat \<Rightarrow> nat \<Rightarrow> error + nat" where
  "get_mut A i j =
     andthen (vector_at (row_ptr A) i) (\<lambda>row_beg.
     andthen (vector_at (row_ptr A) (i + 1)) (\<lambda>row_end.
       get_mut_loop A i j row_beg row_end))"

definition handle_read :: "'a SparseMatrix \<Rightarrow> nat \<Rightarrow> 'a" where
  "handle_read A d = val A ! d"

definition handle_write :: "'a SparseMatrix \<Rightarrow> nat \<Rightarrow> 'a \<Rightarrow> 'a SparseMatrix" where
  "handle_write A d v = A\<lparr>val := (val A)[d := v]\<rparr>"

text \<open>\<open>diag (i)\<close>.\<close>

definition diag :: "'a SparseMatrix \<Rightarrow> nat \<Rightarrow> error + 'a" where
  "diag A i = andthen (vector_at (row_ptr A) i) (\<lambda>k. vector_at (val A) k)"

section \<open>Kernels\<close>

text \<open>
  \<open>multiply (x, y, scalar)\<close>: the inner loop adds to \<open>y(i)\<close> in place, the outer loop
  clears \<open>y(i)\<close> before it and scales it afterwards. Both vectors are passed by
  reference, \<open>x\<close> constant and \<open>y\<close> not, and nothing keeps a caller from passing one
  object for both: \<open>xr\<close> and \<open>yr\<close> are the positions of the two vectors in the store
  \<open>s\<close>, every read of \<open>x\<close> and of \<open>y\<close> goes to the store as it is then, and the result is
  the store after the call.
\<close>

function multiply_row ::
  "('a::comm_ring_1) SparseMatrix \<Rightarrow> nat \<Rightarrow> nat \<Rightarrow> nat \<Rightarrow> nat \<Rightarrow> nat \<Rightarrow> 'a list list \<Rightarrow>
   error + 'a list list" where
  "multiply_row A xr yr i j row_end s =
     (if j < row_end then
        andthen (vector_at (val A) j) (\<lambda>v.
        andthen (vector_at (col_ind A) j) (\<lambda>c.
        andthen (Vector_get (s ! xr) c) (\<lambda>xc.
        andthen (Vector_get (s ! yr) i) (\<lambda>yi.
        andthen (Vector_set (s ! yr) i (yi + v * xc)) (\<lambda>y'.
          multiply_row A xr yr i (j + 1) row_end (s[yr := y']))))))
      else Inr s)"
  by pat_completeness auto
termination
  by (relation "measure (\<lambda>(A, xr, yr, i, j, row_end, s). row_end - j)") auto

function multiply_loop ::
  "('a::comm_ring_1) SparseMatrix \<Rightarrow> nat \<Rightarrow> nat \<Rightarrow> 'a \<Rightarrow> nat \<Rightarrow> 'a list list \<Rightarrow>
   error + 'a list list" where
  "multiply_loop A xr yr scalar i s =
     (if i < nrow A then
        andthen (Vector_set (s ! yr) i 0) (\<lambda>y0.
        andthen (vector_at (row_ptr A) i) (\<lambda>row_beg.
        andthen (vector_at (row_ptr A) (i + 1)) (\<lambda>row_end.
        andthen (multiply_row A xr yr i row_beg row_end (s[yr := y0])) (\<lambda>s1.
        andthen (Vector_get (s1 ! yr) i) (\<lambda>yi.
        andthen (Vector_set (s1 ! yr) i (yi * scalar)) (\<lambda>y2.
          multiply_loop A xr yr scalar (i + 1) (s1[yr := y2])))))))
      else Inr s)"
  by pat_completeness auto
termination
  by (relation "measure (\<lambda>(A, xr, yr, scalar, i, s). nrow A - i)") auto

definition multiply ::
  "('a::comm_ring_1) SparseMatrix \<Rightarrow> 'a list list \<Rightarrow> nat \<Rightarrow> nat \<Rightarrow> 'a \<Rightarrow> error + 'a list list"
  where
  "multiply A s xr yr scalar =
     (if length (s ! xr) \<noteq> nrow A then Inl AssertFailed
      else if length (s ! xr) \<noteq> length (s ! yr) then Inl AssertFailed
      else multiply_loop A xr yr scalar 0 s)"

text \<open>\<open>Jacobi_step (x, rhs)\<close>: the update loop, then the function. The result is the
  updated \<open>x\<close> and the returned norm. The vector \<open>r\<close> is a new object of the function:
  the store of its call of \<open>multiply\<close> holds \<open>x\<close> at position 0 and \<open>r\<close> at
  position 1.\<close>

function Jacobi_loop ::
  "('a \<Rightarrow> 'a \<Rightarrow> 'a) \<Rightarrow> ('a::comm_ring_1) SparseMatrix \<Rightarrow> 'a list \<Rightarrow> nat \<Rightarrow> 'a list \<Rightarrow> error + 'a list"
  where
  "Jacobi_loop tdiv A r i x =
     (if i < nrow A then
        andthen (Vector_get r i) (\<lambda>ri.
        andthen (diag A i) (\<lambda>di.
        andthen (Vector_get x i) (\<lambda>xi.
        andthen (Vector_set x i (xi + tdiv ri di)) (\<lambda>x'.
          Jacobi_loop tdiv A r (i + 1) x'))))
      else Inr x)"
  by pat_completeness auto
termination
  by (relation "measure (\<lambda>(tdiv, A, r, i, x). nrow A - i)") auto


text \<open>\<open>SOR_step (x, rhs, omg)\<close>: the loop over the entries of a row, the loop over the
  rows, then the function.\<close>

function SOR_row ::
  "('a::comm_ring_1) SparseMatrix \<Rightarrow> 'a list \<Rightarrow> nat \<Rightarrow> nat \<Rightarrow> 'a \<Rightarrow> error + 'a" where
  "SOR_row A x j row_end r =
     (if j < row_end then
        andthen (vector_at (val A) j) (\<lambda>v.
        andthen (vector_at (col_ind A) j) (\<lambda>c.
        andthen (Vector_get x c) (\<lambda>xc.
          SOR_row A x (j + 1) row_end (r - v * xc))))
      else Inr r)"
  by pat_completeness auto
termination
  by (relation "measure (\<lambda>(A, x, j, row_end, r). row_end - j)") auto

function SOR_loop ::
  "('a \<Rightarrow> 'a \<Rightarrow> 'a) \<Rightarrow> ('a::comm_ring_1) SparseMatrix \<Rightarrow> 'a list \<Rightarrow> 'a \<Rightarrow> nat \<Rightarrow> 'a list \<Rightarrow> 'a \<Rightarrow>
   error + ('a list \<times> 'a)" where
  "SOR_loop tdiv A rhs omg i x res =
     (if i < nrow A then
        andthen (Vector_get rhs i) (\<lambda>r0.
        andthen (vector_at (row_ptr A) i) (\<lambda>row_beg.
        andthen (vector_at (row_ptr A) (i + 1)) (\<lambda>row_end.
        andthen (SOR_row A x row_beg row_end r0) (\<lambda>r.
        andthen (diag A i) (\<lambda>di.
        andthen (Vector_get x i) (\<lambda>xi.
        andthen (Vector_set x i (xi + tdiv (omg * r) di)) (\<lambda>x'.
          SOR_loop tdiv A rhs omg (i + 1) x' (res + r * r))))))))
      else Inr (x, res))"
  by pat_completeness auto
termination
  by (relation "measure (\<lambda>(tdiv, A, rhs, omg, i, x, res). nrow A - i)") auto

definition SOR_step ::
  "('a \<Rightarrow> 'a \<Rightarrow> 'a) \<Rightarrow> ('a \<Rightarrow> 'a) \<Rightarrow> ('a::comm_ring_1) SparseMatrix \<Rightarrow> 'a list \<Rightarrow> 'a list \<Rightarrow> 'a \<Rightarrow>
   error + ('a list \<times> 'a)" where
  "SOR_step tdiv tsqrt A x rhs omg =
     andthen (SOR_loop tdiv A rhs omg 0 x 0) (\<lambda>(x', res). Inr (x', tsqrt res))"

text \<open>
  \<open>SSOR_step (x, rhs, omg)\<close>: the forward loop and the backward loop, each with its own
  loop over the entries of a row, as the source writes them out. The function writes
  \<open>x\<close> and reads \<open>rhs\<close> again after it has written, and a caller may pass one object
  for both: \<open>xr\<close> and \<open>rr\<close> are the positions of \<open>x\<close> and \<open>rhs\<close> in the store \<open>s\<close>, and
  the result is the store after the call with the returned norm. The counter of the
  backward loop is an \<open>int\<close> initialised with the \<open>unsigned int\<close> value \<open>nrow - 1\<close>:
  \<open>int_of_unsigned\<close> is that conversion, negative from \<open>2 ^ 31\<close> on.
\<close>

definition int_of_unsigned :: "nat \<Rightarrow> int" where
  "int_of_unsigned u = (if u < 2 ^ 31 then int u else int u - 2 ^ 32)"

function SSOR_forward_row ::
  "('a::comm_ring_1) SparseMatrix \<Rightarrow> 'a list list \<Rightarrow> nat \<Rightarrow> nat \<Rightarrow> nat \<Rightarrow> 'a \<Rightarrow> error + 'a" where
  "SSOR_forward_row A s xr j row_end r =
     (if j < row_end then
        andthen (vector_at (val A) j) (\<lambda>v.
        andthen (vector_at (col_ind A) j) (\<lambda>c.
        andthen (Vector_get (s ! xr) c) (\<lambda>xc.
          SSOR_forward_row A s xr (j + 1) row_end (r - v * xc))))
      else Inr r)"
  by pat_completeness auto
termination
  by (relation "measure (\<lambda>(A, s, xr, j, row_end, r). row_end - j)") auto

function SSOR_forward ::
  "('a \<Rightarrow> 'a \<Rightarrow> 'a) \<Rightarrow> ('a::comm_ring_1) SparseMatrix \<Rightarrow> nat \<Rightarrow> nat \<Rightarrow> 'a \<Rightarrow> nat \<Rightarrow> 'a list list \<Rightarrow>
   error + 'a list list" where
  "SSOR_forward tdiv A xr rr omg i s =
     (if i < nrow A then
        andthen (Vector_get (s ! rr) i) (\<lambda>r0.
        andthen (vector_at (row_ptr A) i) (\<lambda>row_beg.
        andthen (vector_at (row_ptr A) (i + 1)) (\<lambda>row_end.
        andthen (SSOR_forward_row A s xr row_beg row_end r0) (\<lambda>r.
        andthen (diag A i) (\<lambda>di.
        andthen (Vector_get (s ! xr) i) (\<lambda>xi.
        andthen (Vector_set (s ! xr) i (xi + tdiv (omg * r) di)) (\<lambda>x'.
          SSOR_forward tdiv A xr rr omg (i + 1) (s[xr := x']))))))))
      else Inr s)"
  by pat_completeness auto
termination
  by (relation "measure (\<lambda>(tdiv, A, xr, rr, omg, i, s). nrow A - i)") auto

function SSOR_backward_row ::
  "('a::comm_ring_1) SparseMatrix \<Rightarrow> 'a list list \<Rightarrow> nat \<Rightarrow> nat \<Rightarrow> nat \<Rightarrow> 'a \<Rightarrow> error + 'a" where
  "SSOR_backward_row A s xr j row_end r =
     (if j < row_end then
        andthen (vector_at (val A) j) (\<lambda>v.
        andthen (vector_at (col_ind A) j) (\<lambda>c.
        andthen (Vector_get (s ! xr) c) (\<lambda>xc.
          SSOR_backward_row A s xr (j + 1) row_end (r - v * xc))))
      else Inr r)"
  by pat_completeness auto
termination
  by (relation "measure (\<lambda>(A, s, xr, j, row_end, r). row_end - j)") auto

function SSOR_backward ::
  "('a \<Rightarrow> 'a \<Rightarrow> 'a) \<Rightarrow> ('a::comm_ring_1) SparseMatrix \<Rightarrow> nat \<Rightarrow> nat \<Rightarrow> 'a \<Rightarrow> int \<Rightarrow> 'a list list \<Rightarrow> 'a \<Rightarrow>
   error + ('a list list \<times> 'a)" where
  "SSOR_backward tdiv A xr rr omg i s res =
     (if 0 \<le> i then
        andthen (Vector_get (s ! rr) (nat i)) (\<lambda>r0.
        andthen (vector_at (row_ptr A) (nat i)) (\<lambda>row_beg.
        andthen (vector_at (row_ptr A) (nat i + 1)) (\<lambda>row_end.
        andthen (SSOR_backward_row A s xr row_beg row_end r0) (\<lambda>r.
        andthen (diag A (nat i)) (\<lambda>di.
        andthen (Vector_get (s ! xr) (nat i)) (\<lambda>xi.
        andthen (Vector_set (s ! xr) (nat i) (xi + tdiv (omg * r) di)) (\<lambda>x'.
          SSOR_backward tdiv A xr rr omg (i - 1) (s[xr := x']) (res + r * r))))))))
      else Inr (s, res))"
  by pat_completeness auto
termination
  by (relation "measure (\<lambda>(tdiv, A, xr, rr, omg, i, s, res). nat (i + 1))") auto

definition SSOR_step ::
  "('a \<Rightarrow> 'a \<Rightarrow> 'a) \<Rightarrow> ('a \<Rightarrow> 'a) \<Rightarrow> ('a::comm_ring_1) SparseMatrix \<Rightarrow> 'a list list \<Rightarrow> nat \<Rightarrow> nat \<Rightarrow>
   'a \<Rightarrow> error + ('a list list \<times> 'a)" where
  "SSOR_step tdiv tsqrt A s xr rr omg =
     andthen (SSOR_forward tdiv A xr rr omg 0 s) (\<lambda>s1.
     andthen (SSOR_backward tdiv A xr rr omg
                (int_of_unsigned ((nrow A + 2 ^ 32 - 1) mod 2 ^ 32)) s1 0) (\<lambda>(s2, res).
       Inr (s2, tsqrt res)))"

declare close_loop.simps [simp del] get_loop.simps [simp del] get_mut_loop.simps [simp del]
  multiply_row.simps [simp del] multiply_loop.simps [simp del] Jacobi_loop.simps [simp del]
  SOR_row.simps [simp del] SOR_loop.simps [simp del] SSOR_forward_row.simps [simp del]
  SSOR_forward.simps [simp del] SSOR_backward_row.simps [simp del]
  SSOR_backward.simps [simp del]

section \<open>The incremental protocol and the invariants of the data model\<close>

text \<open>
  A caller builds a matrix by the constructor of the empty pattern and a sequence of
  \<open>set\<close> calls, each a triple \<open>(i, j, value)\<close>; \<open>set_all\<close> performs the calls in
  order, threading the static counter, and \<open>build\<close> starts from the constructor. The
  counter is 0 when the process starts and keeps its value between matrices.
\<close>

fun set_all ::
  "nat \<Rightarrow> 'a SparseMatrix \<Rightarrow> (nat \<times> nat \<times> 'a) list \<Rightarrow> error + (nat \<times> 'a SparseMatrix)" where
  "set_all count A [] = Inr (count, A)"
| "set_all count A ((i, j, v) # cs) =
     andthen (set_at count A i j v) (\<lambda>(count', A'). set_all count' A' cs)"

definition build ::
  "nat \<Rightarrow> nat \<Rightarrow> (nat \<times> nat \<times> 'a) list \<Rightarrow> error + (nat \<times> 'a SparseMatrix)" where
  "build count n cs = andthen (SparseMatrix_new n) (\<lambda>A. set_all count A cs)"

text \<open>A process that builds one matrix and then a second one: the counter that the
  calls of the first leave behind is the one the calls of the second start from.\<close>

definition build_two ::
  "nat \<Rightarrow> (nat \<times> nat \<times> 'a) list \<Rightarrow> nat \<Rightarrow> (nat \<times> nat \<times> 'a) list \<Rightarrow>
   error + ('a SparseMatrix \<times> 'a SparseMatrix)" where
  "build_two n1 cs1 n2 cs2 =
     andthen (build 0 n1 cs1) (\<lambda>(count1, A1).
     andthen (build count1 n2 cs2) (\<lambda>(count2, A2). Inr (A1, A2)))"

text \<open>The protocol: a positive row count, calls in ascending row order, every index
  below the row count.\<close>

definition protocol :: "nat \<Rightarrow> (nat \<times> nat \<times> 'a) list \<Rightarrow> bool" where
  "protocol n cs \<longleftrightarrow>
     0 < n \<and> sorted (map fst cs) \<and> list_all (\<lambda>(i, j, v). i < n \<and> j < n) cs"

text \<open>The number of calls for rows up to \<open>i\<close>, and whether row \<open>i\<close> has a call.\<close>

definition entries_through :: "(nat \<times> nat \<times> 'a) list \<Rightarrow> nat \<Rightarrow> nat" where
  "entries_through cs i = length (filter (\<lambda>c. fst c \<le> i) cs)"

definition row_empty :: "(nat \<times> nat \<times> 'a) list \<Rightarrow> nat \<Rightarrow> bool" where
  "row_empty cs i \<longleftrightarrow> i \<notin> set (map fst cs)"

text \<open>What the protocol has established when the calls \<open>cs\<close> have been made on a new
  matrix of \<open>n\<close> rows, the counter having been \<open>c0\<close> before the first call.\<close>

definition built :: "nat \<Rightarrow> nat \<Rightarrow> (nat \<times> nat \<times> 'a) list \<Rightarrow> 'a SparseMatrix \<Rightarrow> bool" where
  "built c0 n cs A \<longleftrightarrow>
     nrow A = n \<and> state A = OPEN \<and> length (row_ptr A) = n + 1 \<and> row_ptr A ! 0 = 0 \<and>
     col_ind A = map (\<lambda>(i, j, v). j) cs \<and> val A = map (\<lambda>(i, j, v). v) cs \<and>
     (\<forall>i<n. row_ptr A ! (i + 1) =
        (if row_empty cs i then 0 else (c0 + entries_through cs i) mod 2 ^ 32))"

text \<open>
  The invariants the data model states for a usable matrix: \<open>nrow + 1\<close> offsets that
  start at 0, do not decrease and end at the number of stored entries, as many column
  indices as values, every column index below \<open>nrow\<close>, and a positive row count (both
  constructors assert it).
\<close>

definition csr_invariant :: "'a SparseMatrix \<Rightarrow> bool" where
  "csr_invariant A \<longleftrightarrow>
     0 < nrow A \<and> length (row_ptr A) = nrow A + 1 \<and> row_ptr A ! 0 = 0 \<and>
     sorted (row_ptr A) \<and> row_ptr A ! nrow A = length (val A) \<and>
     length (col_ind A) = length (val A) \<and> list_all (\<lambda>c. c < nrow A) (col_ind A)"

text \<open>The sum over the stored entries of row \<open>i\<close> of \<open>val * x[col]\<close>.\<close>

definition row_sum :: "('a::comm_ring_1) SparseMatrix \<Rightarrow> 'a list \<Rightarrow> nat \<Rightarrow> 'a" where
  "row_sum A x i =
     (\<Sum>d\<leftarrow>[row_ptr A ! i ..< row_ptr A ! (i + 1)]. val A ! d * x ! (col_ind A ! d))"

text \<open>Every row stores an entry, so that \<open>diag (i)\<close> reads an entry of row \<open>i\<close>.\<close>

definition diag_stored :: "'a SparseMatrix \<Rightarrow> bool" where
  "diag_stored A \<longleftrightarrow> list_all (\<lambda>i. row_ptr A ! i < row_ptr A ! (i + 1)) [0..<nrow A]"

text \<open>Component \<open>i\<close> of the residual \<open>rhs - A x\<close>.\<close>

definition residual :: "('a::comm_ring_1) SparseMatrix \<Rightarrow> 'a list \<Rightarrow> 'a list \<Rightarrow> nat \<Rightarrow> 'a" where
  "residual A x rhs i = rhs ! i - row_sum A x i"

subsection \<open>Example matrices\<close>

text \<open>A tridiagonal matrix with the diagonal entry first in every row, and a matrix
  whose row 0 stores column 1 twice, with its diagonal entry between the two.\<close>

definition example_A :: "int SparseMatrix" where
  "example_A = \<lparr>nrow = 3, row_ptr = [0, 2, 5, 7], col_ind = [0, 1, 1, 0, 2, 2, 1],
     val = [4, -1, 4, -1, -1, 4, -1], state = CLOSED\<rparr>"

definition example_dup :: "int SparseMatrix" where
  "example_dup = \<lparr>nrow = 2, row_ptr = [0, 3, 4], col_ind = [1, 0, 1, 1],
     val = [5, 7, 9, 3], state = CLOSED\<rparr>"

text \<open>The 3 by 3 identity over the reals, as the protocol builds it in a fresh
  process.\<close>

definition example_I :: "real SparseMatrix" where
  "example_I = \<lparr>nrow = 3, row_ptr = [0, 1, 2, 3], col_ind = [0, 1, 2], val = [1, 1, 1],
     state = CLOSED\<rparr>"

text \<open>A 2 by 2 matrix over the reals with the diagonal entry first in both rows.\<close>

definition example_R :: "real SparseMatrix" where
  "example_R = \<lparr>nrow = 2, row_ptr = [0, 2, 4], col_ind = [0, 1, 1, 0],
     val = [2, 1, 4, 1], state = CLOSED\<rparr>"

section \<open>Element access on a matrix that satisfies the invariants\<close>

lemma replicate_small:
  "replicate 2 x = [x, x]" "replicate 3 x = [x, x, x]" "replicate 4 x = [x, x, x, x]"
  by (simp_all add: numeral_eq_Suc)

lemma example_A_invariant: "csr_invariant example_A"
  by (simp add: csr_invariant_def example_A_def)

lemma example_dup_invariant: "csr_invariant example_dup"
  by (simp add: csr_invariant_def example_dup_def)

text \<open>The constructor from a CSR triple yields a matrix that satisfies the invariants
  when the offsets of the triple start at 0 and do not decrease; the rest is what the
  constructor asserts.\<close>

lemma SparseMatrix_csr_invariant:
  assumes "SparseMatrix_csr st rp ci vl = Inr A" and "sorted rp" and "rp ! 0 = 0"
  shows "csr_invariant A \<and> row_ptr A = rp \<and> col_ind A = ci \<and> val A = vl"
proof -
  from assms(1) have c: "2 \<le> length rp" "length ci = length vl"
    "rp ! (length rp - 1) = length vl" "list_all (\<lambda>c. c < length rp - 1) ci"
    and A: "A = \<lparr>nrow = length rp - 1, row_ptr = rp, col_ind = ci, val = vl, state = st\<rparr>"
    by (simp_all add: SparseMatrix_csr_def split: if_splits)
  from c assms(2,3) show ?thesis by (simp add: A csr_invariant_def)
qed

lemma csr_row_bounds:
  assumes "csr_invariant A" "i < nrow A"
  shows "i + 1 < length (row_ptr A)" "row_ptr A ! i \<le> row_ptr A ! (i + 1)"
    "row_ptr A ! (i + 1) \<le> length (val A)" "length (col_ind A) = length (val A)"
proof -
  from assms show l: "i + 1 < length (row_ptr A)" by (simp add: csr_invariant_def)
  from assms have s: "sorted (row_ptr A)" and n: "row_ptr A ! nrow A = length (val A)"
    and ln: "length (row_ptr A) = nrow A + 1"
    by (simp_all add: csr_invariant_def)
  from s l show "row_ptr A ! i \<le> row_ptr A ! (i + 1)"
    by (simp add: sorted_iff_nth_mono)
  from s ln assms(2) have "row_ptr A ! (i + 1) \<le> row_ptr A ! nrow A"
    by (simp add: sorted_iff_nth_mono)
  with n show "row_ptr A ! (i + 1) \<le> length (val A)" by simp
  from assms show "length (col_ind A) = length (val A)" by (simp add: csr_invariant_def)
qed

lemma get_loop_found:
  "d \<le> k \<Longrightarrow> k < row_end \<Longrightarrow> row_end \<le> length (col_ind A) \<Longrightarrow>
   length (col_ind A) = length (val A) \<Longrightarrow> col_ind A ! k = j \<Longrightarrow>
   (\<forall>d'. d \<le> d' \<and> d' < k \<longrightarrow> col_ind A ! d' \<noteq> j) \<Longrightarrow>
   get_loop A j d row_end = Inr (val A ! k)"
proof (induction A j d row_end rule: get_loop.induct)
  case (1 A j d row_end)
  show ?case
  proof (cases "d = k")
    case True
    with "1.prems" show ?thesis
      by (subst get_loop.simps) (simp add: andthen_def vector_at_def)
  next
    case False
    with "1.prems" have dk: "d < k" and ne: "col_ind A ! d \<noteq> j" by auto
    from dk "1.prems" have in_range: "d < row_end" "d < length (col_ind A)" by auto
    have "get_loop A j (d + 1) row_end = Inr (val A ! k)"
      using "1.IH" [of "col_ind A ! d"] in_range ne dk "1.prems"
      by (simp add: vector_at_def)
    with in_range ne show ?thesis
      by (subst get_loop.simps) (simp add: andthen_def vector_at_def)
  qed
qed

lemma get_loop_absent:
  "row_end \<le> length (col_ind A) \<Longrightarrow>
   (\<forall>d'. d \<le> d' \<and> d' < row_end \<longrightarrow> col_ind A ! d' \<noteq> j) \<Longrightarrow>
   get_loop A j d row_end = Inr 0"
proof (induction A j d row_end rule: get_loop.induct)
  case (1 A j d row_end)
  show ?case
  proof (cases "d < row_end")
    case True
    with "1.prems" have ne: "col_ind A ! d \<noteq> j" and b: "d < length (col_ind A)" by auto
    have "get_loop A j (d + 1) row_end = Inr 0"
      using "1.IH" [of "col_ind A ! d"] True ne b "1.prems" by (simp add: vector_at_def)
    with True ne b show ?thesis
      by (subst get_loop.simps) (simp add: andthen_def vector_at_def)
  next
    case False
    then show ?thesis by (subst get_loop.simps) simp
  qed
qed

text \<open>
  Claim C2. On a matrix that satisfies the invariants, for a row \<open>i < nrow\<close> and any
  column \<open>j\<close>: if \<open>k\<close> is the first position of row \<open>i\<close> (in storage order, within
  \<open>row_ptr[i] .. row_ptr[i+1]\<close>) whose column index is \<open>j\<close>, the constant accessor
  returns \<open>val[k]\<close>, also when later positions of the row store \<open>j\<close> again; if no
  position of the row stores \<open>j\<close>, it returns zero.
\<close>

theorem get_first_match:
  assumes "csr_invariant A" and "i < nrow A"
  shows "(row_ptr A ! i \<le> k \<and> k < row_ptr A ! (i + 1) \<and> col_ind A ! k = j \<and>
              (\<forall>d. row_ptr A ! i \<le> d \<and> d < k \<longrightarrow> col_ind A ! d \<noteq> j)
            \<longrightarrow> get A i j = Inr (val A ! k)) \<and>
         ((\<forall>d. row_ptr A ! i \<le> d \<and> d < row_ptr A ! (i + 1) \<longrightarrow> col_ind A ! d \<noteq> j)
            \<longrightarrow> get A i j = Inr 0)"
proof -
  note b = csr_row_bounds [OF assms]
  have g: "get A i j = get_loop A j (row_ptr A ! i) (row_ptr A ! (i + 1))"
    using b(1) by (simp add: get_def andthen_def vector_at_def)
  show ?thesis
  proof (intro conjI allI impI)
    assume "row_ptr A ! i \<le> k \<and> k < row_ptr A ! (i + 1) \<and> col_ind A ! k = j \<and>
              (\<forall>d. row_ptr A ! i \<le> d \<and> d < k \<longrightarrow> col_ind A ! d \<noteq> j)"
    then show "get A i j = Inr (val A ! k)"
      using b by (simp add: g get_loop_found)
  next
    assume "\<forall>d. row_ptr A ! i \<le> d \<and> d < row_ptr A ! (i + 1) \<longrightarrow> col_ind A ! d \<noteq> j"
    then show "get A i j = Inr 0"
      using b by (simp add: g get_loop_absent)
  qed
qed

theorem get_first_match_witness:
  "csr_invariant example_dup \<and> 0 < nrow example_dup \<and>
   get example_dup 0 1 = Inr 5 \<and> get example_dup 0 0 = Inr 7 \<and>
   get example_dup 1 0 = Inr 0"
proof -
  have r: "0 < nrow example_dup" "1 < nrow example_dup" by (simp_all add: example_dup_def)
  have a: "get example_dup 0 1 = Inr 5"
    using get_first_match [OF example_dup_invariant r(1), of 0 1]
    by (simp add: example_dup_def)
  have b: "get example_dup 0 0 = Inr 7"
    using get_first_match [OF example_dup_invariant r(1), of 1 0]
    by (simp add: example_dup_def)
  have "\<forall>d::nat. 3 \<le> d \<and> d < 4 \<longrightarrow> [1, 0, 1, 1::nat] ! d \<noteq> 0"
  proof (intro allI impI)
    fix d :: nat assume "3 \<le> d \<and> d < 4"
    then have "d = 3" by arith
    then show "[1, 0, 1, 1::nat] ! d \<noteq> 0" by simp
  qed
  then have c: "get example_dup 1 0 = Inr 0"
    using get_first_match [OF example_dup_invariant r(2), of 0 0]
    by (simp add: example_dup_def)
  from a b c r show ?thesis by (simp add: example_dup_invariant)
qed

lemma get_mut_loop_found:
  "d \<le> k \<Longrightarrow> k < row_end \<Longrightarrow> row_end \<le> length (col_ind A) \<Longrightarrow>
   length (col_ind A) = length (val A) \<Longrightarrow> col_ind A ! k = j \<Longrightarrow>
   (\<forall>d'. d \<le> d' \<and> d' < k \<longrightarrow> col_ind A ! d' \<noteq> j) \<Longrightarrow>
   get_mut_loop A i j d row_end = Inr k"
proof (induction A i j d row_end rule: get_mut_loop.induct)
  case (1 A i j d row_end)
  show ?case
  proof (cases "d = k")
    case True
    with "1.prems" show ?thesis
      by (subst get_mut_loop.simps) (simp add: andthen_def vector_at_def)
  next
    case False
    with "1.prems" have dk: "d < k" and ne: "col_ind A ! d \<noteq> j" by auto
    from dk "1.prems" have in_range: "d < row_end" "d < length (col_ind A)" by auto
    have "get_mut_loop A i j (d + 1) row_end = Inr k"
      using "1.IH" [of "col_ind A ! d"] in_range ne dk "1.prems"
      by (simp add: vector_at_def)
    with in_range ne show ?thesis
      by (subst get_mut_loop.simps) (simp add: andthen_def vector_at_def)
  qed
qed

lemma get_mut_loop_absent:
  "row_end \<le> length (col_ind A) \<Longrightarrow>
   (\<forall>d'. d \<le> d' \<and> d' < row_end \<longrightarrow> col_ind A ! d' \<noteq> j) \<Longrightarrow>
   get_mut_loop A i j d row_end = Inl (Aborted (NoElement i j))"
proof (induction A i j d row_end rule: get_mut_loop.induct)
  case (1 A i j d row_end)
  show ?case
  proof (cases "d < row_end")
    case True
    with "1.prems" have ne: "col_ind A ! d \<noteq> j" and b: "d < length (col_ind A)" by auto
    have "get_mut_loop A i j (d + 1) row_end = Inl (Aborted (NoElement i j))"
      using "1.IH" [of "col_ind A ! d"] True ne b "1.prems" by (simp add: vector_at_def)
    with True ne b show ?thesis
      by (subst get_mut_loop.simps) (simp add: andthen_def vector_at_def)
  next
    case False
    then show ?thesis by (subst get_mut_loop.simps) simp
  qed
qed

lemma get_unfold:
  "i + 1 < length (row_ptr A) \<Longrightarrow>
   get A i j = get_loop A j (row_ptr A ! i) (row_ptr A ! (i + 1))"
  by (simp add: get_def andthen_def vector_at_def)

lemma get_mut_unfold:
  "i + 1 < length (row_ptr A) \<Longrightarrow>
   get_mut A i j = get_mut_loop A i j (row_ptr A ! i) (row_ptr A ! (i + 1))"
  by (simp add: get_mut_def andthen_def vector_at_def)

lemma handle_write_fields:
  "nrow (handle_write A k v) = nrow A" "row_ptr (handle_write A k v) = row_ptr A"
  "col_ind (handle_write A k v) = col_ind A" "state (handle_write A k v) = state A"
  "val (handle_write A k v) = (val A)[k := v]"
  by (simp_all add: handle_write_def)

text \<open>
  Claim C6. On a matrix that satisfies the invariants, for a row \<open>i < nrow\<close> and any
  column \<open>j\<close>: if \<open>k\<close> is the first position of row \<open>i\<close> whose column index is \<open>j\<close>,
  the mutable accessor returns the handle of \<open>val[k]\<close>; reading through it is what the
  constant accessor returns, and writing \<open>v\<close> through it makes the constant accessor
  return \<open>v\<close> and leaves \<open>row_ptr\<close>, \<open>col_ind\<close> and the number of values as they
  were. If no position of the row stores \<open>j\<close>, the call prints its message and aborts.
  The accessor itself writes no field of the matrix, so the model returns no matrix: no
  entry is ever inserted.
\<close>

theorem get_mut_handle_or_abort:
  assumes "csr_invariant A" and "i < nrow A"
  shows "(row_ptr A ! i \<le> k \<and> k < row_ptr A ! (i + 1) \<and> col_ind A ! k = j \<and>
              (\<forall>d. row_ptr A ! i \<le> d \<and> d < k \<longrightarrow> col_ind A ! d \<noteq> j)
            \<longrightarrow> get_mut A i j = Inr k \<and> get A i j = Inr (handle_read A k) \<and>
                (\<forall>v. get (handle_write A k v) i j = Inr v \<and>
                     row_ptr (handle_write A k v) = row_ptr A \<and>
                     col_ind (handle_write A k v) = col_ind A \<and>
                     length (val (handle_write A k v)) = length (val A))) \<and>
         ((\<forall>d. row_ptr A ! i \<le> d \<and> d < row_ptr A ! (i + 1) \<longrightarrow> col_ind A ! d \<noteq> j)
            \<longrightarrow> get_mut A i j = Inl (Aborted (NoElement i j)))"
proof -
  note b = csr_row_bounds [OF assms]
  show ?thesis
  proof (intro conjI allI impI)
    assume k: "row_ptr A ! i \<le> k \<and> k < row_ptr A ! (i + 1) \<and> col_ind A ! k = j \<and>
              (\<forall>d. row_ptr A ! i \<le> d \<and> d < k \<longrightarrow> col_ind A ! d \<noteq> j)"
    then show "get_mut A i j = Inr k"
      using b by (simp add: get_mut_unfold get_mut_loop_found)
    from k show "get A i j = Inr (handle_read A k)"
      using b by (simp add: get_unfold get_loop_found handle_read_def)
    fix v
    let ?B = "handle_write A k v"
    from k b have kv: "k < length (val A)" by simp
    have "get ?B i j = get_loop ?B j (row_ptr ?B ! i) (row_ptr ?B ! (i + 1))"
      using b(1) by (simp add: get_unfold handle_write_fields)
    also have "\<dots> = Inr (val ?B ! k)"
      using k b by (intro get_loop_found) (simp_all add: handle_write_fields)
    also have "val ?B ! k = v" using kv by (simp add: handle_write_fields)
    finally show "get ?B i j = Inr v" .
  next
    assume "\<forall>d. row_ptr A ! i \<le> d \<and> d < row_ptr A ! (i + 1) \<longrightarrow> col_ind A ! d \<noteq> j"
    then show "get_mut A i j = Inl (Aborted (NoElement i j))"
      using b by (simp add: get_mut_unfold get_mut_loop_absent)
  qed (simp_all add: handle_write_fields)
qed

theorem get_mut_handle_or_abort_witness:
  "csr_invariant example_dup \<and> 0 < nrow example_dup \<and>
   get_mut example_dup 0 1 = Inr 0 \<and>
   get (handle_write example_dup 0 8) 0 1 = Inr 8 \<and>
   get_mut example_dup 1 0 = Inl (Aborted (NoElement 1 0))"
proof -
  have r: "0 < nrow example_dup" "1 < nrow example_dup" by (simp_all add: example_dup_def)
  have a: "get_mut example_dup 0 1 = Inr 0 \<and> get (handle_write example_dup 0 8) 0 1 = Inr 8"
    using get_mut_handle_or_abort [OF example_dup_invariant r(1), of 0 1]
    by (simp add: example_dup_def)
  have "\<forall>d::nat. 3 \<le> d \<and> d < 4 \<longrightarrow> [1, 0, 1, 1::nat] ! d \<noteq> 0"
  proof (intro allI impI)
    fix d :: nat assume "3 \<le> d \<and> d < 4"
    then have "d = 3" by arith
    then show "[1, 0, 1, 1::nat] ! d \<noteq> 0" by simp
  qed
  then have c: "get_mut example_dup 1 0 = Inl (Aborted (NoElement 1 0))"
    using get_mut_handle_or_abort [OF example_dup_invariant r(2), of 0 0]
    by (simp add: example_dup_def)
  from a c r show ?thesis by (simp add: example_dup_invariant)
qed

text \<open>
  Claim C5. On a matrix that satisfies the invariants, for a row \<open>i < nrow\<close> whose
  offset \<open>row_ptr[i]\<close> is the position of a stored value, \<open>diag (i)\<close> returns
  \<open>val[row_ptr[i]]\<close> and searches for nothing. When row \<open>i\<close> stores an entry, this is
  the value of the first stored entry of the row, whatever its column \<open>c\<close> is: the
  element \<open>A(i, c)\<close> that the constant accessor returns, which is the diagonal element
  when \<open>c = i\<close>, the convention of inserting the diagonal entry first.
  \<open>diag_is_not_the_diagonal\<close> shows a row that breaks the convention.
\<close>

theorem diag_first_entry:
  assumes "csr_invariant A" and "i < nrow A" and "row_ptr A ! i < length (val A)"
  shows "diag A i = Inr (val A ! (row_ptr A ! i)) \<and>
         (row_ptr A ! i < row_ptr A ! (i + 1) \<longrightarrow>
            get A i (col_ind A ! (row_ptr A ! i)) = diag A i)"
proof -
  note b = csr_row_bounds [OF assms(1,2)]
  from b assms(3) have d: "diag A i = Inr (val A ! (row_ptr A ! i))"
    by (simp add: diag_def andthen_def vector_at_def)
  have "get A i (col_ind A ! (row_ptr A ! i)) = Inr (val A ! (row_ptr A ! i))"
    if "row_ptr A ! i < row_ptr A ! (i + 1)"
    using b that by (simp add: get_unfold get_loop_found)
  with d show ?thesis by simp
qed

theorem diag_first_entry_witness:
  "csr_invariant example_A \<and> 1 < nrow example_A \<and>
   row_ptr example_A ! 1 < length (val example_A) \<and>
   diag example_A 1 = Inr 4 \<and> get example_A 1 1 = diag example_A 1"
proof -
  have h: "1 < nrow example_A" "row_ptr example_A ! 1 < length (val example_A)"
    by (simp_all add: example_A_def)
  from diag_first_entry [OF example_A_invariant h] h example_A_invariant show ?thesis
    by (simp add: example_A_def)
qed

lemma diag_is_not_the_diagonal:
  "diag example_dup 0 = Inr 5 \<and> get example_dup 0 0 = Inr 7"
  by (simp add: diag_def get_def example_dup_def andthen_def vector_at_def get_loop.simps)

section \<open>Kernels on a matrix that satisfies the invariants\<close>

lemma csr_col_bound:
  "csr_invariant A \<Longrightarrow> d < length (col_ind A) \<Longrightarrow> col_ind A ! d < nrow A"
  by (simp add: csr_invariant_def list_all_length)

lemma multiply_row_sum:
  "xr \<noteq> yr \<Longrightarrow> xr < length s \<Longrightarrow> yr < length s \<Longrightarrow>
   j \<le> row_end \<Longrightarrow> row_end \<le> length (val A) \<Longrightarrow> length (col_ind A) = length (val A) \<Longrightarrow>
   (\<forall>d<length (col_ind A). col_ind A ! d < length (s ! xr)) \<Longrightarrow> i < length (s ! yr) \<Longrightarrow>
   multiply_row A xr yr i j row_end s =
     Inr (s[yr := (s ! yr)[i := s ! yr ! i +
            (\<Sum>d\<leftarrow>[j..<row_end]. val A ! d * s ! xr ! (col_ind A ! d))]])"
proof (induction "row_end - j" arbitrary: j s)
  case 0
  then show ?case by (subst multiply_row.simps) simp
next
  case (Suc n)
  then have j: "j < row_end" "j < length (val A)" "j < length (col_ind A)"
    and c: "col_ind A ! j < length (s ! xr)" by auto
  let ?y = "(s ! yr)[i := s ! yr ! i + val A ! j * s ! xr ! (col_ind A ! j)]"
  let ?s = "s[yr := ?y]"
  have x: "?s ! xr = s ! xr" and y: "?s ! yr = ?y"
    using Suc.prems(1,3) by simp_all
  have "multiply_row A xr yr i (j + 1) row_end ?s =
     Inr (?s[yr := (?s ! yr)[i := ?s ! yr ! i +
            (\<Sum>d\<leftarrow>[j + 1..<row_end]. val A ! d * ?s ! xr ! (col_ind A ! d))]])"
    using Suc.prems Suc.hyps(2) j by (intro Suc.hyps(1)) (simp_all add: x)
  then show ?case
    using j c Suc.prems(8)
    by (subst multiply_row.simps)
       (simp add: andthen_def vector_at_def Vector_get_def Vector_set_def upt_conv_Cons
          add.assoc x y)
qed

lemma multiply_loop_rows:
  "csr_invariant A \<Longrightarrow> xr \<noteq> yr \<Longrightarrow> xr < length s \<Longrightarrow> yr < length s \<Longrightarrow>
   length (s ! xr) = nrow A \<Longrightarrow> length (s ! yr) = nrow A \<Longrightarrow> i \<le> nrow A \<Longrightarrow>
   multiply_loop A xr yr scalar i s =
     Inr (s[yr := take i (s ! yr) @ map (\<lambda>k. scalar * row_sum A (s ! xr) k) [i..<nrow A]])"
proof (induction "nrow A - i" arbitrary: i s)
  case 0
  then show ?case by (subst multiply_loop.simps) (simp add: list_update_same_conv)
next
  case (Suc n)
  then have i: "i < nrow A" by simp
  note b = csr_row_bounds [OF Suc.prems(1) i]
  have cols: "\<forall>d<length (col_ind A). col_ind A ! d < length (s ! xr)"
    using Suc.prems(1,5) by (simp add: csr_col_bound)
  let ?s0 = "s[yr := (s ! yr)[i := 0]]"
  let ?s1 = "s[yr := (s ! yr)[i := row_sum A (s ! xr) i]]"
  let ?s2 = "s[yr := (s ! yr)[i := scalar * row_sum A (s ! xr) i]]"
  have x0: "?s0 ! xr = s ! xr" and y0: "?s0 ! yr = (s ! yr)[i := 0]"
    using Suc.prems(2,4) by simp_all
  have "multiply_row A xr yr i (row_ptr A ! i) (row_ptr A ! (i + 1)) ?s0 =
     Inr (?s0[yr := (?s0 ! yr)[i := ?s0 ! yr ! i +
            (\<Sum>d\<leftarrow>[row_ptr A ! i..<row_ptr A ! (i + 1)].
               val A ! d * ?s0 ! xr ! (col_ind A ! d))]])"
    using b cols i Suc.prems(2,3,4,6) by (intro multiply_row_sum) (simp_all add: x0)
  then have row: "multiply_row A xr yr i (row_ptr A ! i) (row_ptr A ! (i + 1)) ?s0 = Inr ?s1"
    using i Suc.prems(4,6) by (simp add: x0 y0 row_sum_def)
  have x2: "?s2 ! xr = s ! xr"
    and y2: "?s2 ! yr = (s ! yr)[i := scalar * row_sum A (s ! xr) i]"
    using Suc.prems(2,4) by simp_all
  have "multiply_loop A xr yr scalar (i + 1) ?s2 =
     Inr (?s2[yr := take (i + 1) (?s2 ! yr) @
            map (\<lambda>k. scalar * row_sum A (?s2 ! xr) k) [i + 1..<nrow A]])"
    using Suc.prems Suc.hyps(2) i by (intro Suc.hyps(1)) (simp_all add: x2)
  moreover have "take (i + 1) (?s2 ! yr) = take i (s ! yr) @ [scalar * row_sum A (s ! xr) i]"
    using i Suc.prems(6) by (simp add: y2 take_Suc_conv_app_nth)
  ultimately have rest: "multiply_loop A xr yr scalar (i + 1) ?s2 =
     Inr (s[yr := take i (s ! yr) @ map (\<lambda>k. scalar * row_sum A (s ! xr) k) [i..<nrow A]])"
    using i by (simp add: x2 upt_conv_Cons)
  have y1: "?s1 ! yr = (s ! yr)[i := row_sum A (s ! xr) i]"
    using Suc.prems(4) by simp
  show ?case
    using i b(1) Suc.prems(4,6) row rest
    by (subst multiply_loop.simps)
       (simp add: andthen_def vector_at_def Vector_get_def Vector_set_def y1 mult.commute)
qed

lemma multiply_value:
  assumes "csr_invariant A" and "xr \<noteq> yr" and "xr < length s" and "yr < length s"
    and "length (s ! xr) = nrow A" and "length (s ! yr) = nrow A"
  shows "multiply A s xr yr scalar =
     Inr (s[yr := map (\<lambda>i. scalar * row_sum A (s ! xr) i) [0..<nrow A]])"
  using assms multiply_loop_rows [OF assms, of 0 scalar] by (simp add: multiply_def)

text \<open>
  Claim C3, for distinct objects. On a matrix that satisfies the invariants, with \<open>x\<close>
  and \<open>y\<close> two different vectors of the store, both of length \<open>nrow\<close>,
  \<open>multiply (x, y, scalar)\<close> leaves the store with \<open>y\<close> replaced by the vector whose
  component \<open>i\<close> is \<open>scalar\<close> times the sum over the stored entries of row \<open>i\<close> of
  \<open>val * x[col]\<close>: the result does not depend on the previous contents of \<open>y\<close>, only
  stored entries contribute, and \<open>x\<close> and every other vector are as they were.
\<close>

theorem multiply_row_sums:
  assumes "csr_invariant A" and "xr \<noteq> yr" and "xr < length s" and "yr < length s"
    and "length (s ! xr) = nrow A" and "length (s ! yr) = nrow A"
  shows "multiply A s xr yr scalar =
     Inr (s[yr := map (\<lambda>i. scalar * row_sum A (s ! xr) i) [0..<nrow A]])"
  using assms by (rule multiply_value)

theorem multiply_row_sums_witness:
  "csr_invariant example_A \<and> (0 :: nat) \<noteq> 1 \<and> 0 < length [[1, 2, 3], [9, 9, 9 :: int]] \<and>
   1 < length [[1, 2, 3], [9, 9, 9 :: int]] \<and>
   length ([[1, 2, 3], [9, 9, 9 :: int]] ! 0) = nrow example_A \<and>
   length ([[1, 2, 3], [9, 9, 9 :: int]] ! 1) = nrow example_A \<and>
   multiply example_A [[1, 2, 3], [9, 9, 9]] 0 1 2 = Inr [[1, 2, 3], [4, 8, 20]]"
proof -
  have h: "(0 :: nat) \<noteq> 1" "0 < length [[1, 2, 3], [9, 9, 9 :: int]]"
    "1 < length [[1, 2, 3], [9, 9, 9 :: int]]"
    "length ([[1, 2, 3], [9, 9, 9 :: int]] ! 0) = nrow example_A"
    "length ([[1, 2, 3], [9, 9, 9 :: int]] ! 1) = nrow example_A"
    by (simp_all add: example_A_def)
  from multiply_row_sums [OF example_A_invariant h, of 2] h example_A_invariant
  show ?thesis by (simp add: example_A_def row_sum_def upt_rec)
qed

text \<open>
  Claim C3 as stated, with only the lengths required, fails when one object is passed
  for both vectors: on the tridiagonal example with contents \<open>[1, 2, 3]\<close> and
  \<open>scalar = 1\<close> the call leaves \<open>[-2, -1, 1]\<close> in the object, where the row sums of the
  contents before the call are \<open>[2, 4, 10]\<close>, which the call with two objects yields.
\<close>

theorem multiply_same_object:
  "length ([[1, 2, 3 :: int]] ! 0) = nrow example_A \<and>
   multiply example_A [[1, 2, 3]] 0 0 1 = Inr [[- 2, - 1, 1]] \<and>
   map (\<lambda>i. 1 * row_sum example_A [1, 2, 3] i) [0..<nrow example_A] = [2, 4, 10] \<and>
   multiply example_A [[1, 2, 3], [1, 2, 3]] 0 1 1 = Inr [[1, 2, 3], [2, 4, 10]]"
  by (simp add: multiply_def multiply_loop.simps multiply_row.simps example_A_def row_sum_def
      upt_rec andthen_def vector_at_def Vector_get_def Vector_set_def)

lemma diag_stored_row: "diag_stored A \<Longrightarrow> i < nrow A \<Longrightarrow> row_ptr A ! i < row_ptr A ! (i + 1)"
  by (simp add: diag_stored_def list_all_iff)

lemma diag_value:
  assumes "csr_invariant A" and "diag_stored A" and "i < nrow A"
  shows "diag A i = Inr (val A ! (row_ptr A ! i))"
  using csr_row_bounds [OF assms(1,3)] diag_stored_row [OF assms(2,3)]
  by (simp add: diag_def andthen_def vector_at_def)





lemma example_I_built:
  "andthen (build 0 3 [(0, 0, 1), (1, 1, 1), (2, 2, 1)]) (\<lambda>(count, A). close A) =
     Inr (example_I, [])"
  by (simp add: build_def SparseMatrix_new_def set_at_def close_def close_loop.simps
      andthen_def vector_at_def example_I_def replicate_small)


lemma SOR_row_sum:
  "j \<le> row_end \<Longrightarrow> row_end \<le> length (val A) \<Longrightarrow> length (col_ind A) = length (val A) \<Longrightarrow>
   (\<forall>d<length (col_ind A). col_ind A ! d < length x) \<Longrightarrow>
   SOR_row A x j row_end r =
     Inr (r - (\<Sum>d\<leftarrow>[j..<row_end]. val A ! d * x ! (col_ind A ! d)))"
proof (induction "row_end - j" arbitrary: j r)
  case 0
  then show ?case by (subst SOR_row.simps) simp
next
  case (Suc n)
  then have j: "j < row_end" "j < length (val A)" "j < length (col_ind A)"
    and c: "col_ind A ! j < length x" by auto
  have "SOR_row A x (j + 1) row_end (r - val A ! j * x ! (col_ind A ! j)) =
     Inr (r - val A ! j * x ! (col_ind A ! j) -
          (\<Sum>d\<leftarrow>[j + 1..<row_end]. val A ! d * x ! (col_ind A ! d)))"
    using Suc.prems Suc.hyps(2) j by (intro Suc.hyps(1)) simp_all
  then show ?case
    using j c
    by (subst SOR_row.simps)
       (simp add: andthen_def vector_at_def Vector_get_def upt_conv_Cons algebra_simps)
qed

lemma SOR_row_residual:
  assumes "csr_invariant A" and "i < nrow A" and "length x = nrow A"
  shows "SOR_row A x (row_ptr A ! i) (row_ptr A ! (i + 1)) (rhs ! i) = Inr (residual A x rhs i)"
  using csr_row_bounds [OF assms(1,2)] assms
  by (subst SOR_row_sum) (simp_all add: residual_def row_sum_def csr_col_bound)

text \<open>One pass of the body of the row loop.\<close>

lemma SOR_loop_step:
  assumes "csr_invariant A" and "diag_stored A" and "length x = nrow A"
    and "length rhs = nrow A" and "i < nrow A"
  shows "SOR_loop tdiv A rhs omg i x res =
     SOR_loop tdiv A rhs omg (i + 1)
       (x[i := x ! i + tdiv (omg * residual A x rhs i) (val A ! (row_ptr A ! i))])
       (res + residual A x rhs i * residual A x rhs i)"
  using assms csr_row_bounds [OF assms(1,5)] diag_value [OF assms(1,2,5)]
    SOR_row_residual [OF assms(1,5,3)]
  by (subst SOR_loop.simps) (simp add: andthen_def vector_at_def Vector_get_def Vector_set_def)

lemma take_drop_same_prefix: "take k x' = take k x \<Longrightarrow> take k x' @ drop k x = x"
  by (metis append_take_drop_id)

lemma SOR_loop_sweep:
  "csr_invariant A \<Longrightarrow> diag_stored A \<Longrightarrow> length x = nrow A \<Longrightarrow> length rhs = nrow A \<Longrightarrow>
   i \<le> nrow A \<Longrightarrow>
   \<exists>x'. SOR_loop tdiv A rhs omg i x res =
          Inr (x', res + (\<Sum>k\<leftarrow>[i..<nrow A]. residual A (take k x' @ drop k x) rhs k *
                                          residual A (take k x' @ drop k x) rhs k)) \<and>
        length x' = nrow A \<and> take i x' = take i x \<and>
        (\<forall>k. i \<le> k \<and> k < nrow A \<longrightarrow>
           x' ! k = x ! k + tdiv (omg * residual A (take k x' @ drop k x) rhs k)
                              (val A ! (row_ptr A ! k)))"
proof (induction "nrow A - i" arbitrary: i x res)
  case 0
  then show ?case by (subst SOR_loop.simps) auto
next
  case (Suc n)
  then have i: "i < nrow A" by simp
  let ?r = "residual A x rhs i"
  let ?x1 = "x[i := x ! i + tdiv (omg * ?r) (val A ! (row_ptr A ! i))]"
  let ?R = "\<lambda>y x' k. residual A (take k x' @ drop k y) rhs k"
  have "\<exists>x'. SOR_loop tdiv A rhs omg (i + 1) ?x1 (res + ?r * ?r) =
          Inr (x', res + ?r * ?r + (\<Sum>k\<leftarrow>[i + 1..<nrow A]. ?R ?x1 x' k * ?R ?x1 x' k)) \<and>
        length x' = nrow A \<and> take (i + 1) x' = take (i + 1) ?x1 \<and>
        (\<forall>k. i + 1 \<le> k \<and> k < nrow A \<longrightarrow>
           x' ! k = ?x1 ! k + tdiv (omg * ?R ?x1 x' k) (val A ! (row_ptr A ! k)))"
    using Suc.prems Suc.hyps(2) i by (intro Suc.hyps(1)) simp_all
  then obtain x' where
    run: "SOR_loop tdiv A rhs omg (i + 1) ?x1 (res + ?r * ?r) =
          Inr (x', res + ?r * ?r + (\<Sum>k\<leftarrow>[i + 1..<nrow A]. ?R ?x1 x' k * ?R ?x1 x' k))"
    and len: "length x' = nrow A"
    and pre: "take (i + 1) x' = take (i + 1) ?x1"
    and upd: "\<forall>k. i + 1 \<le> k \<and> k < nrow A \<longrightarrow>
           x' ! k = ?x1 ! k + tdiv (omg * ?R ?x1 x' k) (val A ! (row_ptr A ! k))"
    by blast
  have later: "?R ?x1 x' k = ?R x x' k" if "i < k" for k
    using that by simp
  have "take i (take (i + 1) x') = take i (take (i + 1) ?x1)" using pre by simp
  then have pre_i: "take i x' = take i x" by (simp add: min_def)
  then have here: "?R x x' i = ?r" by (simp add: take_drop_same_prefix)
  have "x' ! i = take (i + 1) x' ! i" by simp
  also have "\<dots> = ?x1 ! i" using pre by simp
  finally have at_i: "x' ! i = x ! i + tdiv (omg * ?R x x' i) (val A ! (row_ptr A ! i))"
    using i Suc.prems(3) here by simp
  have sums: "(\<Sum>k\<leftarrow>[i + 1..<nrow A]. ?R ?x1 x' k * ?R ?x1 x' k) =
              (\<Sum>k\<leftarrow>[i + 1..<nrow A]. ?R x x' k * ?R x x' k)"
    by (rule arg_cong [where f = sum_list], rule map_cong) (simp_all add: later)
  have "SOR_loop tdiv A rhs omg i x res =
          Inr (x', res + (\<Sum>k\<leftarrow>[i..<nrow A]. ?R x x' k * ?R x x' k))"
    using i run sums here
    by (simp add: SOR_loop_step [OF Suc.prems(1,2,3,4) i] upt_conv_Cons add.assoc)
  moreover have "\<forall>k. i \<le> k \<and> k < nrow A \<longrightarrow>
           x' ! k = x ! k + tdiv (omg * ?R x x' k) (val A ! (row_ptr A ! k))"
  proof (intro allI impI)
    fix k assume k: "i \<le> k \<and> k < nrow A"
    show "x' ! k = x ! k + tdiv (omg * ?R x x' k) (val A ! (row_ptr A ! k))"
    proof (cases "k = i")
      case True
      with at_i show ?thesis by simp
    next
      case False
      with k have "i + 1 \<le> k" "i < k" by simp_all
      with upd k later [of k] show ?thesis by simp
    qed
  qed
  ultimately show ?case using len pre_i by blast
qed


text \<open>
  Claim C8. On a matrix that satisfies the invariants and stores an entry in every row,
  with \<open>x\<close> and \<open>rhs\<close> of length \<open>nrow\<close>, \<open>SOR_step (x, rhs, omg)\<close> returns the vector
  \<open>x'\<close> determined row by row in ascending order: the residual \<open>r\<close> of row \<open>k\<close> is
  \<open>rhs[k]\<close> minus the sum over the stored entries of row \<open>k\<close> of \<open>val * x[col]\<close> on the
  current vector, which holds the components of \<open>x'\<close> below \<open>k\<close> (updated earlier in
  this sweep) and those of \<open>x\<close> from \<open>k\<close> on; \<open>x'[k] = x[k] + omg * r / diag (k)\<close>; and
  the returned value is the square root of the sum of these \<open>r * r\<close>, the residuals
  met during the sweep.
\<close>

theorem SOR_step_sweep:
  assumes "csr_invariant A" and "diag_stored A" and "length x = nrow A"
    and "length rhs = nrow A"
  shows "\<exists>x'. SOR_step tdiv tsqrt A x rhs omg =
          Inr (x', tsqrt (\<Sum>k\<leftarrow>[0..<nrow A]. residual A (take k x' @ drop k x) rhs k *
                                            residual A (take k x' @ drop k x) rhs k)) \<and>
        length x' = nrow A \<and>
        (\<forall>k<nrow A.
           x' ! k = x ! k + tdiv (omg * residual A (take k x' @ drop k x) rhs k)
                              (val A ! (row_ptr A ! k)))"
proof -
  from SOR_loop_sweep [OF assms, of 0 tdiv omg 0]
  obtain x' where
    "SOR_loop tdiv A rhs omg 0 x 0 =
          Inr (x', 0 + (\<Sum>k\<leftarrow>[0..<nrow A]. residual A (take k x' @ drop k x) rhs k *
                                            residual A (take k x' @ drop k x) rhs k))"
    "length x' = nrow A"
    "\<forall>k. 0 \<le> k \<and> k < nrow A \<longrightarrow>
           x' ! k = x ! k + tdiv (omg * residual A (take k x' @ drop k x) rhs k)
                              (val A ! (row_ptr A ! k))"
    by auto
  then show ?thesis by (intro exI [of _ x']) (simp add: SOR_step_def andthen_def)
qed


theorem SOR_step_sweep_witness:
  "csr_invariant example_R \<and> diag_stored example_R \<and>
   length [0, 0 :: real] = nrow example_R \<and> length [2, 9 :: real] = nrow example_R \<and>
   SOR_step (/) sqrt example_R [0, 0] [2, 9] 1 = Inr ([1, 2], sqrt 68)"
proof -
  have h: "csr_invariant example_R" "diag_stored example_R"
    "length [0, 0 :: real] = nrow example_R" "length [2, 9 :: real] = nrow example_R"
    by (simp_all add: csr_invariant_def diag_stored_def example_R_def upt_rec)
  from SOR_step_sweep [OF h, of "(/)" sqrt 1] obtain x' where
    run: "SOR_step (/) sqrt example_R [0, 0] [2, 9] 1 =
      Inr (x', sqrt (\<Sum>k\<leftarrow>[0..<nrow example_R].
         residual example_R (take k x' @ drop k [0, 0]) [2, 9] k *
         residual example_R (take k x' @ drop k [0, 0]) [2, 9] k))"
    and len: "length x' = nrow example_R"
    and upd: "\<forall>k<nrow example_R. x' ! k = [0, 0] ! k +
         1 * residual example_R (take k x' @ drop k [0, 0]) [2, 9] k /
         val example_R ! (row_ptr example_R ! k)"
    by blast
  from len obtain a b where x': "x' = [a, b]"
    by (auto simp add: example_R_def length_Suc_conv numeral_2_eq_2)
  from upd [THEN spec, of 0] have a: "a = 1"
    by (simp add: example_R_def residual_def row_sum_def upt_rec x')
  from upd [THEN spec, of 1] have b: "b = 2"
    by (simp add: example_R_def residual_def row_sum_def upt_rec x' a)
  from run h show ?thesis
    by (simp add: x' a b) (simp add: example_R_def residual_def row_sum_def upt_rec)
qed










text \<open>Beyond \<open>2 ^ 31\<close> rows the counter of the backward loop starts negative: the
  loop does not run, and the call returns \<open>sqrt 0\<close> after the forward sweep alone.\<close>

lemma SSOR_step_without_backward_sweep:
  assumes "2 ^ 31 < nrow A" and "nrow A < 2 ^ 32"
  shows "SSOR_step tdiv tsqrt A s xr rr omg =
     andthen (SSOR_forward tdiv A xr rr omg 0 s) (\<lambda>s1. Inr (s1, tsqrt 0))"
proof -
  from assms(1) obtain k where k: "nrow A = Suc k" by (cases "nrow A") auto
  with assms have range: "2 ^ 31 \<le> k" "k < 2 ^ 32" by simp_all
  have "(nrow A + 2 ^ 32 - 1) mod 2 ^ 32 = (k + 2 ^ 32) mod 2 ^ 32" by (simp only: k) simp
  also have "\<dots> = k mod 2 ^ 32" by (rule mod_add_self2)
  also have "\<dots> = k" using range(2) by simp
  finally have "int_of_unsigned ((nrow A + 2 ^ 32 - 1) mod 2 ^ 32) = int k - 2 ^ 32"
    using range(1) by (simp add: int_of_unsigned_def)
  moreover have "\<not> 0 \<le> int k - 2 ^ 32" using range(2) by simp
  ultimately have "SSOR_backward tdiv A xr rr omg
      (int_of_unsigned ((nrow A + 2 ^ 32 - 1) mod 2 ^ 32)) s1 0 = Inr (s1, 0)" for s1
    by (subst SSOR_backward.simps) (simp only: if_False)
  then show ?thesis by (simp only: SSOR_step_def) (simp add: andthen_def)
qed




section \<open>The incremental protocol\<close>

lemma set_all_snoc:
  "set_all count A (cs @ [(i, j, v)]) =
     andthen (set_all count A cs) (\<lambda>(count', A'). set_at count' A' i j v)"
proof (induction cs arbitrary: count A)
  case Nil
  show ?case by (simp add: andthen_def split: sum.splits)
next
  case (Cons c cs)
  obtain i' j' v' where c: "c = (i', j', v')" by (cases c) auto
  show ?case
    by (cases "set_at count A i' j' v'") (auto simp add: c andthen_def Cons.IH)
qed

lemma protocol_snoc:
  assumes "protocol n (cs @ [(i, j, v)])"
  shows "protocol n cs" "i < n" "j < n" "\<forall>c\<in>set cs. fst c \<le> i"
  using assms by (auto simp add: protocol_def sorted_append)

lemma entries_through_all: "\<forall>c\<in>set cs. fst c \<le> i \<Longrightarrow> entries_through cs i = length cs"
  by (simp add: entries_through_def)

lemma row_empty_above: "\<forall>c\<in>set cs. fst c \<le> i \<Longrightarrow> i < k \<Longrightarrow> row_empty cs k"
  by (auto simp add: row_empty_def)

lemma entries_through_le: "entries_through cs i \<le> length cs"
  by (simp add: entries_through_def)

lemma built_new:
  "0 < n \<Longrightarrow> n + 1 < 2 ^ 32 \<Longrightarrow> \<exists>A. SparseMatrix_new n = Inr A \<and> built c0 n [] A"
  by (simp add: SparseMatrix_new_def built_def row_empty_def)

lemma built_set_at:
  assumes b: "built c0 n cs A" and i: "i < n" and j: "j < n"
    and le: "\<forall>c\<in>set cs. fst c \<le> i"
  shows "\<exists>A'. set_at ((c0 + length cs) mod 2 ^ 32) A i j v =
                Inr ((c0 + length cs + 1) mod 2 ^ 32, A') \<and>
              built c0 n (cs @ [(i, j, v)]) A'"
proof -
  let ?c = "(c0 + length cs) mod 2 ^ 32"
  let ?c' = "(c0 + length cs + 1) mod 2 ^ 32"
  let ?rp = "row_ptr A"
  let ?rp' = "?rp[i + 1 := ?c']"
  let ?A' = "A\<lparr>row_ptr := ?rp', col_ind := col_ind A @ [j], val := val A @ [v]\<rparr>"
  from b have f: "nrow A = n" "state A = OPEN" "length ?rp = n + 1" "?rp ! 0 = 0"
    "col_ind A = map (\<lambda>(i, j, v). j) cs" "val A = map (\<lambda>(i, j, v). v) cs"
    and rows: "\<And>k. k < n \<Longrightarrow>
      ?rp ! (k + 1) = (if row_empty cs k then 0 else (c0 + entries_through cs k) mod 2 ^ 32)"
    by (simp_all add: built_def)
  have next_count: "(?c + 1) mod 2 ^ 32 = ?c'"
    by (simp add: mod_Suc_eq)
  have cur: "(if ?rp ! (i + 1) = 0 then ?c else ?rp ! (i + 1)) = ?c"
    using rows [OF i] entries_through_all [OF le] by (simp split: if_splits)
  have "set_at ?c A i j v =
      Inr ((?c + 1) mod 2 ^ 32,
           A\<lparr>row_ptr := ?rp[i + 1 :=
                  ((if ?rp ! (i + 1) = 0 then ?c else ?rp ! (i + 1)) + 1) mod 2 ^ 32],
             col_ind := col_ind A @ [j], val := val A @ [v]\<rparr>)"
    using f i j by (simp add: set_at_def andthen_def vector_at_def Let_def)
  then have run: "set_at ?c A i j v = Inr (?c', ?A')"
    by (simp only: cur next_count)
  have "?rp' ! (k + 1) =
      (if row_empty (cs @ [(i, j, v)]) k then 0
       else (c0 + entries_through (cs @ [(i, j, v)]) k) mod 2 ^ 32)"
    if k: "k < n" for k
  proof (cases "k = i")
    case True
    then show ?thesis
      using f(3) i entries_through_all [OF le]
      by (simp add: row_empty_def entries_through_def)
  next
    case False
    then have same: "?rp' ! (k + 1) = ?rp ! (k + 1)" by simp
    show ?thesis
    proof (cases "k < i")
      case True
      then show ?thesis
        using same rows [OF k] False by (simp add: row_empty_def entries_through_def)
    next
      case False
      with \<open>k \<noteq> i\<close> have "i < k" by simp
      then show ?thesis
        using same rows [OF k] row_empty_above [OF le] \<open>k \<noteq> i\<close>
        by (simp add: row_empty_def)
    qed
  qed
  then have "built c0 n (cs @ [(i, j, v)]) ?A'"
    using f i by (simp add: built_def)
  with run show ?thesis by blast
qed

lemma build_built:
  "protocol n cs \<Longrightarrow> n + 1 < 2 ^ 32 \<Longrightarrow> c0 < 2 ^ 32 \<Longrightarrow>
   \<exists>A. build c0 n cs = Inr ((c0 + length cs) mod 2 ^ 32, A) \<and> built c0 n cs A"
proof (induction cs rule: rev_induct)
  case Nil
  then have "0 < n" by (simp add: protocol_def)
  from built_new [OF this Nil.prems(2), of c0] obtain A :: "'a SparseMatrix"
    where "SparseMatrix_new n = Inr A" "built c0 n [] A" by blast
  with Nil.prems(3) show ?case by (intro exI [of _ A]) (simp add: build_def andthen_def)
next
  case (snoc c cs)
  obtain i j v where c: "c = (i, j, v)" by (cases c) auto
  note p = protocol_snoc [OF snoc.prems(1) [unfolded c]]
  from snoc.IH [OF p(1) snoc.prems(2,3)] obtain A where
    A: "build c0 n cs = Inr ((c0 + length cs) mod 2 ^ 32, A)" "built c0 n cs A" by blast
  from built_set_at [OF A(2) p(2,3,4), of v] obtain A' where
    A': "set_at ((c0 + length cs) mod 2 ^ 32) A i j v = Inr ((c0 + length cs + 1) mod 2 ^ 32, A')"
    "built c0 n (cs @ [(i, j, v)]) A'" by blast
  from p(1) have "0 < n" by (simp add: protocol_def)
  with A(1) A'(1) have "build c0 n (cs @ [(i, j, v)]) = Inr ((c0 + length cs + 1) mod 2 ^ 32, A')"
    by (simp add: build_def SparseMatrix_new_def set_all_snoc andthen_def)
  with A'(2) show ?case by (auto simp add: c)
qed

lemma built_row_ptr:
  "built c0 n cs A \<Longrightarrow> c0 + length cs < 2 ^ 32 \<Longrightarrow> i < n \<Longrightarrow>
   row_ptr A ! (i + 1) = (if row_empty cs i then 0 else c0 + entries_through cs i)"
proof -
  assume b: "built c0 n cs A" and small: "c0 + length cs < 2 ^ 32" and i: "i < n"
  from small entries_through_le [of cs i] have "c0 + entries_through cs i < 2 ^ 32" by simp
  with b i show ?thesis by (simp add: built_def)
qed

lemmas build_eval =
  build_two_def build_def SparseMatrix_new_def set_at_def andthen_def vector_at_def Let_def
  replicate_small

text \<open>
  Claim C10. The counter of \<open>set\<close> outlives the matrix. For calls that follow the
  protocol, with row counts \<open>n1\<close>, \<open>n2\<close> such that \<open>nrow + 1\<close> is an \<open>unsigned int\<close>
  and fewer than \<open>2 ^ 32\<close> calls in all (so that the counter does not wrap), a process
  that builds a first matrix from \<open>cs1\<close> and then a second from \<open>cs2\<close> leaves in the
  first matrix, for every row \<open>i\<close> with a call, \<open>row_ptr[i+1]\<close> equal to the number of
  calls for rows up to \<open>i\<close>, as a fresh process would; in the second matrix the same
  entries are stored as in a fresh process, but \<open>row_ptr[i+1]\<close> of every row with a call
  exceeds the value of the fresh process by the number of entries of the first matrix.
  The instance that follows is a pair of sequences for which the two runs differ.
\<close>

theorem static_count_shifts_row_ptr:
  assumes "protocol n1 cs1" and "protocol n2 cs2"
    and "n1 + 1 < 2 ^ 32" and "n2 + 1 < 2 ^ 32" and "length cs1 + length cs2 < 2 ^ 32"
  shows "\<exists>A1 A2 B2.
     build_two n1 cs1 n2 cs2 = Inr (A1, A2) \<and>
     build 0 n1 cs1 = Inr (length cs1, A1) \<and>
     build 0 n2 cs2 = Inr (length cs2, B2) \<and>
     (\<forall>i<n1. \<not> row_empty cs1 i \<longrightarrow> row_ptr A1 ! (i + 1) = entries_through cs1 i) \<and>
     (\<forall>i<n2. \<not> row_empty cs2 i \<longrightarrow> row_ptr B2 ! (i + 1) = entries_through cs2 i) \<and>
     (\<forall>i<n2. \<not> row_empty cs2 i \<longrightarrow> row_ptr A2 ! (i + 1) = row_ptr B2 ! (i + 1) + length cs1) \<and>
     col_ind A2 = col_ind B2 \<and> val A2 = val B2"
proof -
  from assms(5) have small: "length cs1 < 2 ^ 32" "length cs2 < 2 ^ 32"
    "0 + length cs1 < 2 ^ 32" "0 + length cs2 < 2 ^ 32" by simp_all
  from build_built [OF assms(1,3), of 0] small obtain A1 where
    A1: "build 0 n1 cs1 = Inr (length cs1, A1)" "built 0 n1 cs1 A1" by auto
  from build_built [OF assms(2,4) small(1)] assms(5) obtain A2 where
    A2: "build (length cs1) n2 cs2 = Inr (length cs1 + length cs2, A2)"
      "built (length cs1) n2 cs2 A2" by auto
  from build_built [OF assms(2,4), of 0] small obtain B2 where
    B2: "build 0 n2 cs2 = Inr (length cs2, B2)" "built 0 n2 cs2 B2" by auto
  have "build_two n1 cs1 n2 cs2 = Inr (A1, A2)"
    using A1(1) A2(1) by (simp add: build_two_def andthen_def)
  moreover have "col_ind A2 = col_ind B2" "val A2 = val B2"
    using A2(2) B2(2) by (simp_all add: built_def)
  ultimately show ?thesis
    using A1 B2 built_row_ptr [OF A1(2) small(3)] built_row_ptr [OF B2(2) small(4)]
      built_row_ptr [OF A2(2) assms(5)]
    by (intro exI [of _ A1] exI [of _ A2] exI [of _ B2]) simp
qed

theorem static_count_shifts_row_ptr_witness:
  "protocol 1 [(0, 0, 5 :: int)] \<and> protocol 2 [(0, 0, 1 :: int), (1, 1, 1)] \<and>
   (1 :: nat) + 1 < 2 ^ 32 \<and> (2 :: nat) + 1 < 2 ^ 32 \<and>
   length [(0 :: nat, 0 :: nat, 5 :: int)] + length [(0 :: nat, 0 :: nat, 1 :: int), (1, 1, 1)]
     < 2 ^ 32 \<and>
   build_two 1 [(0, 0, 5 :: int)] 2 [(0, 0, 1), (1, 1, 1)] =
     Inr (\<lparr>nrow = 1, row_ptr = [0, 1], col_ind = [0], val = [5], state = OPEN\<rparr>,
          \<lparr>nrow = 2, row_ptr = [0, 2, 3], col_ind = [0, 1], val = [1, 1], state = OPEN\<rparr>) \<and>
   build 0 2 [(0, 0, 1 :: int), (1, 1, 1)] =
     Inr (2, \<lparr>nrow = 2, row_ptr = [0, 1, 2], col_ind = [0, 1], val = [1, 1], state = OPEN\<rparr>) \<and>
   [0, 2, 3 :: nat] ! (1 + 1) = [0, 1, 2] ! (1 + 1) + length [(0 :: nat, 0 :: nat, 5 :: int)]"
proof -
  let ?cs1 = "[(0 :: nat, 0 :: nat, 5 :: int)]"
  let ?cs2 = "[(0 :: nat, 0 :: nat, 1 :: int), (1, 1, 1)]"
  have p: "protocol 1 ?cs1" "protocol 2 ?cs2" "(1 :: nat) + 1 < 2 ^ 32"
    "(2 :: nat) + 1 < 2 ^ 32" "length ?cs1 + length ?cs2 < 2 ^ 32"
    by (simp_all add: protocol_def)
  have e: "build_two 1 ?cs1 2 ?cs2 =
     Inr (\<lparr>nrow = 1, row_ptr = [0, 1], col_ind = [0], val = [5], state = OPEN\<rparr>,
          \<lparr>nrow = 2, row_ptr = [0, 2, 3], col_ind = [0, 1], val = [1, 1], state = OPEN\<rparr>)"
    by (simp add: build_eval)
  have b: "build 0 2 ?cs2 =
     Inr (2, \<lparr>nrow = 2, row_ptr = [0, 1, 2], col_ind = [0, 1], val = [1, 1], state = OPEN\<rparr>)"
    by (simp add: build_eval)
  from static_count_shifts_row_ptr [OF p] obtain A1 A2 B2 where
    r1: "build_two 1 ?cs1 2 ?cs2 = Inr (A1, A2)"
    and r2: "build 0 2 ?cs2 = Inr (length ?cs2, B2)"
    and r3: "\<forall>i<2. \<not> row_empty ?cs2 i \<longrightarrow>
         row_ptr A2 ! (i + 1) = row_ptr B2 ! (i + 1) + length ?cs1"
    by blast
  from r1 e have A2: "row_ptr A2 = [0, 2, 3]" by simp
  from r2 b have B2: "row_ptr B2 = [0, 1, 2]" by simp
  have "\<not> row_empty ?cs2 1" by (simp add: row_empty_def)
  with r3 [THEN spec, of 1] have "row_ptr A2 ! (1 + 1) = row_ptr B2 ! (1 + 1) + length ?cs1"
    by simp
  then have "[0, 2, 3 :: nat] ! (1 + 1) = [0, 1, 2] ! (1 + 1) + length ?cs1"
    by (simp only: A2 B2)
  with p e b show ?thesis by blast
qed

text \<open>
  Claim C1, at a second matrix. In a process that has inserted one entry into a first
  matrix, the calls \<open>set (0, 0, 1)\<close>, \<open>set (1, 1, 1)\<close> on a new matrix of two rows
  append the columns and values, but leave \<open>row_ptr = [0, 2, 3]\<close>, while the numbers
  of entries inserted into this matrix through rows 0 and 1 are 1 and 2. After \<open>close\<close>
  the constant accessor reads \<open>col_ind\<close> outside its size at \<open>(1, 1)\<close>.
\<close>

theorem second_matrix_row_ptr:
  "build_two 1 [(0, 0, 5 :: int)] 2 [(0, 0, 1), (1, 1, 1)] =
     Inr (\<lparr>nrow = 1, row_ptr = [0, 1], col_ind = [0], val = [5], state = OPEN\<rparr>,
          \<lparr>nrow = 2, row_ptr = [0, 2, 3], col_ind = [0, 1], val = [1, 1], state = OPEN\<rparr>) \<and>
   entries_through [(0, 0, 1 :: int), (1, 1, 1)] 0 = 1 \<and>
   entries_through [(0, 0, 1 :: int), (1, 1, 1)] 1 = 2 \<and>
   andthen (close \<lparr>nrow = 2, row_ptr = [0, 2, 3], col_ind = [0, 1], val = [1, 1 :: int],
       state = OPEN\<rparr>) (\<lambda>(A, out). get A 1 1) = Inl OutOfBounds"
proof -
  have "build_two 1 [(0, 0, 5 :: int)] 2 [(0, 0, 1), (1, 1, 1)] =
     Inr (\<lparr>nrow = 1, row_ptr = [0, 1], col_ind = [0], val = [5], state = OPEN\<rparr>,
          \<lparr>nrow = 2, row_ptr = [0, 2, 3], col_ind = [0, 1], val = [1, 1], state = OPEN\<rparr>)"
    by (simp add: build_eval)
  moreover have "entries_through [(0, 0, 1 :: int), (1, 1, 1)] 0 = 1"
    "entries_through [(0, 0, 1 :: int), (1, 1, 1)] 1 = 2"
    by (simp_all add: entries_through_def)
  moreover have "andthen (close \<lparr>nrow = 2, row_ptr = [0, 2, 3], col_ind = [0, 1],
       val = [1, 1 :: int], state = OPEN\<rparr>) (\<lambda>(A, out). get A 1 1) = Inl OutOfBounds"
    by (simp add: close_def close_loop.simps get_def get_loop.simps andthen_def vector_at_def)
  ultimately show ?thesis by blast
qed


lemma close_loop_result:
  "n + 1 < 2 ^ 32 \<Longrightarrow> length rp = n + 1 \<Longrightarrow> 1 \<le> i \<Longrightarrow> i \<le> n + 1 \<Longrightarrow>
   \<exists>rp'. close_loop n i rp out =
            Inr (rp', out @ map RowEmpty (filter (\<lambda>k. rp ! k = 0) [i..<n + 1])) \<and>
         length rp' = n + 1 \<and> (\<forall>k<i. rp' ! k = rp ! k) \<and>
         (\<forall>k. i \<le> k \<and> k \<le> n \<longrightarrow> rp' ! k = (if rp ! k = 0 then rp' ! (k - 1) else rp ! k))"
proof (induction "n + 1 - i" arbitrary: i rp out)
  case 0
  then show ?case by (subst close_loop.simps) auto
next
  case (Suc m)
  then have i: "i < n + 1" "i < length rp" "i - 1 < length rp" by simp_all
  from Suc.prems(1) have m: "(n + 1) mod 2 ^ 32 = n + 1" by simp
  let ?rp1 = "if rp ! i = 0 then rp[i := rp ! (i - 1)] else rp"
  let ?out1 = "if rp ! i = 0 then out @ [RowEmpty i] else out"
  have step: "close_loop n i rp out = close_loop n (i + 1) ?rp1 ?out1"
    using i by (subst close_loop.simps) (simp only: m, simp add: andthen_def vector_at_def)
  have "\<exists>rp'. close_loop n (i + 1) ?rp1 ?out1 =
            Inr (rp', ?out1 @ map RowEmpty (filter (\<lambda>k. ?rp1 ! k = 0) [i + 1..<n + 1])) \<and>
         length rp' = n + 1 \<and> (\<forall>k<i + 1. rp' ! k = ?rp1 ! k) \<and>
         (\<forall>k. i + 1 \<le> k \<and> k \<le> n \<longrightarrow>
            rp' ! k = (if ?rp1 ! k = 0 then rp' ! (k - 1) else ?rp1 ! k))"
    using Suc.prems Suc.hyps(2) i by (intro Suc.hyps(1)) simp_all
  then obtain rp' where
    run: "close_loop n (i + 1) ?rp1 ?out1 =
            Inr (rp', ?out1 @ map RowEmpty (filter (\<lambda>k. ?rp1 ! k = 0) [i + 1..<n + 1]))"
    and len: "length rp' = n + 1"
    and low: "\<forall>k<i + 1. rp' ! k = ?rp1 ! k"
    and high: "\<forall>k. i + 1 \<le> k \<and> k \<le> n \<longrightarrow>
            rp' ! k = (if ?rp1 ! k = 0 then rp' ! (k - 1) else ?rp1 ! k)"
    by blast
  have other: "?rp1 ! k = rp ! k" if "k \<noteq> i" for k using that by simp
  have f: "filter (\<lambda>k. ?rp1 ! k = 0) [i + 1..<n + 1] = filter (\<lambda>k. rp ! k = 0) [i + 1..<n + 1]"
  proof (rule filter_cong)
    fix k assume "k \<in> set [i + 1..<n + 1]"
    then have "k \<noteq> i" by auto
    then show "(?rp1 ! k = 0) = (rp ! k = 0)" by simp
  qed simp
  have out: "?out1 @ map RowEmpty (filter (\<lambda>k. rp ! k = 0) [i + 1..<n + 1]) =
             out @ map RowEmpty (filter (\<lambda>k. rp ! k = 0) [i..<n + 1])"
  proof -
    have u: "[i..<n + 1] = i # [i + 1..<n + 1]"
      using i(1) by (simp only: upt_conv_Cons Suc_eq_plus1)
    show ?thesis unfolding u by simp
  qed
  have below: "\<forall>k<i. rp' ! k = rp ! k"
    using low other by auto
  have at_i: "rp' ! i = (if rp ! i = 0 then rp' ! (i - 1) else rp ! i)"
  proof -
    from Suc.prems(3) have "i - 1 < i" by simp
    with below have "rp' ! (i - 1) = rp ! (i - 1)" by blast
    moreover from low have "rp' ! i = ?rp1 ! i" by simp
    ultimately show ?thesis using i(2) by simp
  qed
  have above: "rp' ! k = (if rp ! k = 0 then rp' ! (k - 1) else rp ! k)"
    if "i \<le> k \<and> k \<le> n" for k
  proof (cases "k = i")
    case True
    with at_i show ?thesis by simp
  next
    case False
    with that have "i + 1 \<le> k \<and> k \<le> n" by simp
    with high other [OF False] show ?thesis by simp
  qed
  from run f out have "close_loop n i rp out =
      Inr (rp', out @ map RowEmpty (filter (\<lambda>k. rp ! k = 0) [i..<n + 1]))"
    by (simp only: step)
  with len below above show ?case by blast
qed

lemma entries_through_positive: "\<not> row_empty cs k \<Longrightarrow> 0 < entries_through cs k"
  by (auto simp add: row_empty_def entries_through_def filter_empty_conv)

lemma built_row_ptr_zero:
  "built c0 n cs A \<Longrightarrow> c0 + length cs < 2 ^ 32 \<Longrightarrow> k < n \<Longrightarrow>
   row_ptr A ! (k + 1) = 0 \<longleftrightarrow> row_empty cs k"
proof -
  assume b: "built c0 n cs A" "c0 + length cs < 2 ^ 32" "k < n"
  from built_row_ptr [OF b] have
    "row_ptr A ! (k + 1) = (if row_empty cs k then 0 else c0 + entries_through cs k)" .
  with entries_through_positive [of cs k] show ?thesis by (simp split: if_splits)
qed

lemma close_built:
  assumes "built c0 n cs A" and "n + 1 < 2 ^ 32" and "c0 + length cs < 2 ^ 32"
  shows "\<exists>A'. close A = Inr (A', map (\<lambda>k. RowEmpty (k + 1)) (filter (row_empty cs) [0..<n])) \<and>
      state A' = CLOSED \<and> nrow A' = n \<and> col_ind A' = col_ind A \<and> val A' = val A \<and>
      length (row_ptr A') = n + 1 \<and> row_ptr A' ! 0 = 0 \<and>
      (\<forall>k<n. row_ptr A' ! (k + 1) =
         (if row_empty cs k then row_ptr A' ! k else row_ptr A ! (k + 1)))"
proof -
  let ?rp = "row_ptr A"
  from assms(1) have f: "nrow A = n" "length ?rp = n + 1" "?rp ! 0 = 0"
    by (simp_all add: built_def)
  from close_loop_result [OF assms(2) f(2), of 1 "[]"] obtain rp' where
    run: "close_loop n 1 ?rp [] = Inr (rp', map RowEmpty (filter (\<lambda>k. ?rp ! k = 0) [1..<n + 1]))"
    and len: "length rp' = n + 1"
    and low: "\<forall>k<1. rp' ! k = ?rp ! k"
    and high: "\<forall>k. 1 \<le> k \<and> k \<le> n \<longrightarrow> rp' ! k = (if ?rp ! k = 0 then rp' ! (k - 1) else ?rp ! k)"
    by auto
  have "[1..<n + 1] = map Suc [0..<n]" by (simp add: map_Suc_upt)
  then have "map RowEmpty (filter (\<lambda>k. ?rp ! k = 0) [1..<n + 1]) =
      map (\<lambda>k. RowEmpty (k + 1)) (filter (\<lambda>k. ?rp ! (k + 1) = 0) [0..<n])"
    by (simp add: filter_map comp_def)
  also have "filter (\<lambda>k. ?rp ! (k + 1) = 0) [0..<n] = filter (row_empty cs) [0..<n]"
  proof (rule filter_cong)
    fix k assume "k \<in> set [0..<n]"
    then have "k < n" by simp
    then show "(?rp ! (k + 1) = 0) = row_empty cs k"
      by (rule built_row_ptr_zero [OF assms(1,3)])
  qed simp
  finally have out: "map RowEmpty (filter (\<lambda>k. ?rp ! k = 0) [1..<n + 1]) =
      map (\<lambda>k. RowEmpty (k + 1)) (filter (row_empty cs) [0..<n])" .
  let ?A' = "A\<lparr>row_ptr := rp', state := CLOSED\<rparr>"
  have "close A = Inr (?A', map (\<lambda>k. RowEmpty (k + 1)) (filter (row_empty cs) [0..<n]))"
    using run out f(1) by (simp add: close_def andthen_def)
  moreover have "\<forall>k<n. rp' ! (k + 1) = (if row_empty cs k then rp' ! k else ?rp ! (k + 1))"
  proof (intro allI impI)
    fix k assume k: "k < n"
    with high have "rp' ! (k + 1) = (if ?rp ! (k + 1) = 0 then rp' ! k else ?rp ! (k + 1))"
      by simp
    with built_row_ptr_zero [OF assms(1,3) k] show
      "rp' ! (k + 1) = (if row_empty cs k then rp' ! k else ?rp ! (k + 1))" by simp
  qed
  moreover from low f(3) have "rp' ! 0 = 0" by simp
  ultimately show ?thesis using len f(1) by (intro exI [of _ ?A']) simp
qed

text \<open>
  Claim C4, within the range of \<open>unsigned int\<close>. For calls that follow the protocol, a
  row count \<open>n\<close> such that \<open>n + 1\<close> is an \<open>unsigned int\<close>, and a counter that does not
  wrap during the calls (its value before them plus their number is below \<open>2 ^ 32\<close>),
  \<open>close\<close> on the matrix they built succeeds; it prints one warning for every row
  without a call (for row \<open>k\<close>, counted from 0, the number printed is \<open>k + 1\<close>) and
  nothing else; afterwards the state is \<open>CLOSED\<close>, \<open>row_ptr[k] = row_ptr[k+1]\<close> for
  every row \<open>k\<close> without a call, and \<open>row_ptr[k+1]\<close> is what it was for every row with
  a call.
\<close>

theorem close_empty_rows:
  assumes "protocol n cs" and "n + 1 < 2 ^ 32" and "c0 + length cs < 2 ^ 32"
  shows "\<exists>A A'. build c0 n cs = Inr (c0 + length cs, A) \<and>
      close A = Inr (A', map (\<lambda>k. RowEmpty (k + 1)) (filter (row_empty cs) [0..<n])) \<and>
      state A' = CLOSED \<and>
      (\<forall>k<n. row_empty cs k \<longrightarrow> row_ptr A' ! k = row_ptr A' ! (k + 1)) \<and>
      (\<forall>k<n. \<not> row_empty cs k \<longrightarrow> row_ptr A' ! (k + 1) = row_ptr A ! (k + 1))"
proof -
  from assms(3) have "c0 < 2 ^ 32" by simp
  from build_built [OF assms(1,2) this] assms(3) obtain A where
    A: "build c0 n cs = Inr (c0 + length cs, A)" "built c0 n cs A" by auto
  from close_built [OF A(2) assms(2,3)] obtain A' where
    "close A = Inr (A', map (\<lambda>k. RowEmpty (k + 1)) (filter (row_empty cs) [0..<n]))"
    "state A' = CLOSED"
    "\<forall>k<n. row_ptr A' ! (k + 1) =
         (if row_empty cs k then row_ptr A' ! k else row_ptr A ! (k + 1))"
    by blast
  with A(1) show ?thesis by (intro exI [of _ A] exI [of _ A']) simp
qed

theorem close_empty_rows_witness:
  "protocol 3 [(0, 0, 4 :: int), (2, 2, 4), (2, 1, - 1)] \<and> (3 :: nat) + 1 < 2 ^ 32 \<and>
   0 + length [(0 :: nat, 0 :: nat, 4 :: int), (2, 2, 4), (2, 1, - 1)] < 2 ^ 32 \<and>
   build 0 3 [(0, 0, 4 :: int), (2, 2, 4), (2, 1, - 1)] =
     Inr (3, \<lparr>nrow = 3, row_ptr = [0, 1, 0, 3], col_ind = [0, 2, 1], val = [4, 4, - 1],
              state = OPEN\<rparr>) \<and>
   close \<lparr>nrow = 3, row_ptr = [0, 1, 0, 3], col_ind = [0, 2, 1], val = [4, 4, - 1 :: int],
              state = OPEN\<rparr> =
     Inr (\<lparr>nrow = 3, row_ptr = [0, 1, 1, 3], col_ind = [0, 2, 1], val = [4, 4, - 1],
              state = CLOSED\<rparr>, [RowEmpty 2])"
proof -
  let ?cs = "[(0 :: nat, 0 :: nat, 4 :: int), (2, 2, 4), (2, 1, - 1)]"
  let ?A = "\<lparr>nrow = 3, row_ptr = [0, 1, 0, 3], col_ind = [0, 2, 1], val = [4, 4, - 1 :: int],
              state = OPEN\<rparr>"
  have p: "protocol 3 ?cs" "(3 :: nat) + 1 < 2 ^ 32" "0 + length ?cs < 2 ^ 32"
    by (simp_all add: protocol_def)
  have b: "build 0 3 ?cs = Inr (3, ?A)" by (simp add: build_eval)
  from close_empty_rows [OF p] obtain A A' where
    r1: "build 0 3 ?cs = Inr (0 + length ?cs, A)"
    and r2: "close A = Inr (A', map (\<lambda>k. RowEmpty (k + 1)) (filter (row_empty ?cs) [0..<3]))"
    and r3: "state A' = CLOSED"
    and r4: "\<forall>k<3. row_empty ?cs k \<longrightarrow> row_ptr A' ! k = row_ptr A' ! (k + 1)"
    and r5: "\<forall>k<3. \<not> row_empty ?cs k \<longrightarrow> row_ptr A' ! (k + 1) = row_ptr A ! (k + 1)"
    by blast
  from r1 b have A: "A = ?A" by simp
  have c: "close ?A = Inr (\<lparr>nrow = 3, row_ptr = [0, 1, 1, 3], col_ind = [0, 2, 1],
      val = [4, 4, - 1], state = CLOSED\<rparr>, [RowEmpty 2])"
    by (simp add: close_def close_loop.simps andthen_def vector_at_def)
  from r2 have "close ?A = Inr (A', [RowEmpty 2])"
    by (simp add: A row_empty_def upt_rec)
  with p b c show ?thesis by simp
qed

text \<open>
  Claim C4 as stated, for every matrix built by the protocol, fails outside that range.
  With the counter at 4294967294 (left there by earlier matrices of the element type),
  two calls for rows 0 and 1 of a matrix of two rows follow the protocol; the second
  call stores the counter 4294967295 in \<open>row_ptr[2]\<close> and its increment wraps to 0. Then
  \<open>close\<close> takes row 1, which has an entry, for an empty row: it prints the warning for
  it and alters its \<open>row_ptr[2]\<close>. With 4294967295 rows the constructor resizes
  \<open>row_ptr\<close> to \<open>nrow + 1 = 0\<close> elements and the loop of \<open>close\<close> does not run: no
  warning is printed although every row is empty.
\<close>

theorem close_empty_rows_wraps:
  "protocol 2 [(0, 0, 1 :: int), (1, 1, 1)] \<and>
   \<not> row_empty [(0, 0, 1 :: int), (1, 1, 1)] 1 \<and>
   build 4294967294 2 [(0, 0, 1 :: int), (1, 1, 1)] =
     Inr (0, \<lparr>nrow = 2, row_ptr = [0, 4294967295, 0], col_ind = [0, 1], val = [1, 1],
              state = OPEN\<rparr>) \<and>
   close \<lparr>nrow = 2, row_ptr = [0, 4294967295, 0], col_ind = [0, 1], val = [1, 1 :: int],
              state = OPEN\<rparr> =
     Inr (\<lparr>nrow = 2, row_ptr = [0, 4294967295, 4294967295], col_ind = [0, 1], val = [1, 1],
              state = CLOSED\<rparr>, [RowEmpty 2]) \<and>
   protocol 4294967295 ([] :: (nat \<times> nat \<times> int) list) \<and>
   row_empty ([] :: (nat \<times> nat \<times> int) list) 0 \<and>
   build 0 4294967295 ([] :: (nat \<times> nat \<times> int) list) =
     Inr (0, \<lparr>nrow = 4294967295, row_ptr = [], col_ind = [], val = [], state = OPEN\<rparr>) \<and>
   close \<lparr>nrow = 4294967295, row_ptr = [], col_ind = [], val = [] :: int list,
              state = OPEN\<rparr> =
     Inr (\<lparr>nrow = 4294967295, row_ptr = [], col_ind = [], val = [], state = CLOSED\<rparr>, [])"
proof -
  have "protocol 2 [(0, 0, 1 :: int), (1, 1, 1)]"
    "protocol 4294967295 ([] :: (nat \<times> nat \<times> int) list)"
    by (simp_all add: protocol_def)
  moreover have "\<not> row_empty [(0, 0, 1 :: int), (1, 1, 1)] 1"
    "row_empty ([] :: (nat \<times> nat \<times> int) list) 0"
    by (simp_all add: row_empty_def)
  moreover have "build 4294967294 2 [(0, 0, 1 :: int), (1, 1, 1)] =
     Inr (0, \<lparr>nrow = 2, row_ptr = [0, 4294967295, 0], col_ind = [0, 1], val = [1, 1],
              state = OPEN\<rparr>)"
    by (simp add: build_eval)
  moreover have "close \<lparr>nrow = 2, row_ptr = [0, 4294967295, 0], col_ind = [0, 1],
              val = [1, 1 :: int], state = OPEN\<rparr> =
     Inr (\<lparr>nrow = 2, row_ptr = [0, 4294967295, 4294967295], col_ind = [0, 1], val = [1, 1],
              state = CLOSED\<rparr>, [RowEmpty 2])"
    by (simp add: close_def close_loop.simps andthen_def vector_at_def)
  moreover have "build 0 4294967295 ([] :: (nat \<times> nat \<times> int) list) =
     Inr (0, \<lparr>nrow = 4294967295, row_ptr = [], col_ind = [], val = [], state = OPEN\<rparr>)"
    by (simp add: build_def SparseMatrix_new_def andthen_def)
  moreover have "close \<lparr>nrow = 4294967295, row_ptr = [], col_ind = [], val = [] :: int list,
              state = OPEN\<rparr> =
     Inr (\<lparr>nrow = 4294967295, row_ptr = [], col_ind = [], val = [], state = CLOSED\<rparr>, [])"
    by (simp add: close_def close_loop.simps andthen_def)
  ultimately show ?thesis by blast
qed

text \<open>
  In a fresh process the protocol followed by \<open>close\<close> yields a matrix that satisfies
  the invariants of the data model.
\<close>

lemma entries_through_mono: "a \<le> b \<Longrightarrow> entries_through cs a \<le> entries_through cs b"
  unfolding entries_through_def by (induction cs) auto

lemma entries_through_empty_row:
  assumes "row_empty cs k"
  shows "entries_through cs k = (if k = 0 then 0 else entries_through cs (k - 1))"
proof -
  have "filter (\<lambda>c. fst c \<le> k) cs = filter (\<lambda>c. k \<noteq> 0 \<and> fst c \<le> k - 1) cs"
  proof (rule filter_cong)
    fix c assume "c \<in> set cs"
    with assms have "fst c \<noteq> k" by (auto simp add: row_empty_def)
    then show "(fst c \<le> k) = (k \<noteq> 0 \<and> fst c \<le> k - 1)" by auto
  qed simp
  then show ?thesis by (simp add: entries_through_def)
qed

lemma closed_row_ptr:
  assumes "\<forall>k<n. rp ! (k + 1) = (if row_empty cs k then rp ! k else entries_through cs k)"
    and "rp ! 0 = 0"
  shows "k < n \<Longrightarrow> rp ! (k + 1) = entries_through cs k"
proof (induction k)
  case 0
  with assms show ?case by (simp add: entries_through_empty_row)
next
  case (Suc k)
  then have "rp ! (k + 1) = entries_through cs k" by simp
  with assms(1) Suc.prems show ?case by (simp add: entries_through_empty_row)
qed

lemma first_matrix_invariant:
  assumes "protocol n cs" and "n + 1 < 2 ^ 32" and "length cs < 2 ^ 32"
  shows "\<exists>A A' out. build 0 n cs = Inr (length cs, A) \<and> close A = Inr (A', out) \<and>
           csr_invariant A'"
proof -
  from assms(1) have n: "0 < n" and rows: "\<forall>c\<in>set cs. fst c \<le> n - 1"
    and cols: "list_all (\<lambda>c. c < n) (map (\<lambda>(i, j, v). j) cs)"
    by (auto simp add: protocol_def list_all_iff)
  from assms(3) have small: "0 + length cs < 2 ^ 32" by simp
  from build_built [OF assms(1,2), of 0] assms(3) obtain A where
    A: "build 0 n cs = Inr (length cs, A)" "built 0 n cs A" by auto
  from close_built [OF A(2) assms(2) small] obtain A' out where
    c: "close A = Inr (A', out)" "nrow A' = n" "col_ind A' = col_ind A" "val A' = val A"
      "length (row_ptr A') = n + 1" "row_ptr A' ! 0 = 0"
    and r: "\<forall>k<n. row_ptr A' ! (k + 1) =
         (if row_empty cs k then row_ptr A' ! k else row_ptr A ! (k + 1))"
    by blast
  let ?rp = "row_ptr A'"
  have "\<forall>k<n. ?rp ! (k + 1) = (if row_empty cs k then ?rp ! k else entries_through cs k)"
    using r built_row_ptr [OF A(2) small] by simp
  note e = closed_row_ptr [OF this c(6)]
  have "sorted ?rp"
    unfolding sorted_iff_nth_Suc
  proof (intro allI impI)
    fix i assume i: "Suc i < length ?rp"
    show "?rp ! i \<le> ?rp ! Suc i"
    proof (cases i)
      case 0
      with c(6) show ?thesis by simp
    next
      case (Suc j)
      with i c(5) have "j < n" "Suc j < n" by simp_all
      with e [of j] e [of "Suc j"] Suc show ?thesis
        by (simp add: entries_through_mono)
    qed
  qed
  moreover have "?rp ! n = length cs"
  proof -
    from n e [of "n - 1"] have "?rp ! n = entries_through cs (n - 1)" by simp
    also have "\<dots> = length cs" by (rule entries_through_all [OF rows])
    finally show ?thesis .
  qed
  moreover from A(2) have "col_ind A = map (\<lambda>(i, j, v). j) cs" "val A = map (\<lambda>(i, j, v). v) cs"
    by (simp_all add: built_def)
  ultimately have "csr_invariant A'"
    using n c cols by (simp add: csr_invariant_def)
  with A(1) c(1) show ?thesis by blast
qed

end
